theory Spec2Isabelle
  imports Main
begin

section \<open>Data model\<close>

text \<open>
  The notebook \<^verbatim>\<open>cagdemo.ipynb\<close> sequences calls into an external model library.
  The exceptions its own code can raise are values of \<open>py_error\<close>.
\<close>

datatype py_error = IndexError | RuntimeError | ValueError | NameError | FileNotFoundError

text \<open>
  A key or value tensor of one layer has shape \<open>[batch, heads, seq, head_dim]\<close>. It is a
  nested list with one level per axis, outermost axis first; the entry type \<open>'a\<close> stands
  for the stored number. The sequence axis is the third one.
\<close>

type_synonym 'a tensor4 = "'a list list list list"

text \<open>
  \<^verbatim>\<open>DynamicCache\<close>: one key tensor and one value tensor per layer, held in the two lists
  \<^verbatim>\<open>key_cache\<close> and \<^verbatim>\<open>value_cache\<close>. \<^verbatim>\<open>DynamicCache()\<close> has both lists empty.
\<close>

record 'a dyn_cache =
  key_cache :: "'a tensor4 list"
  value_cache :: "'a tensor4 list"

definition DynamicCache :: "'a dyn_cache" where
  "DynamicCache = \<lparr>key_cache = [], value_cache = []\<rparr>"

text \<open>
  The slice \<^verbatim>\<open>xs[:n]\<close> of Python for an integer \<open>n\<close>: the first \<open>n\<close> elements when \<open>n\<close> is
  not negative (all of them when there are fewer), and all but the last \<open>-n\<close> otherwise.
\<close>

definition slice_to :: "int \<Rightarrow> 'b list \<Rightarrow> 'b list" where
  "slice_to n xs = (if 0 \<le> n then take (nat n) xs else take (length xs - nat (- n)) xs)"

text \<open>\<^verbatim>\<open>t[:, :, :origin_len, :]\<close>: the slice on the third axis, the other axes whole.\<close>

definition slice_seq :: "int \<Rightarrow> 'a tensor4 \<Rightarrow> 'a tensor4" where
  "slice_seq n t = map (map (slice_to n)) t"

text \<open>
  \<^verbatim>\<open>t.shape[-2]\<close>, read off the first batch entry and the first head. (A nested list
  with an empty batch or head axis does not record the extent of the inner axes; the
  value is 0 there.)
\<close>

definition shape_seq :: "'a tensor4 \<Rightarrow> nat" where
  "shape_seq t = (case t of [] \<Rightarrow> 0 | b # _ \<Rightarrow> (case b of [] \<Rightarrow> 0 | h # _ \<Rightarrow> length h))"

text \<open>Every batch entry and every head of \<open>t\<close> has \<open>n\<close> sequence positions.\<close>

definition seq_len_is :: "nat \<Rightarrow> 'a tensor4 \<Rightarrow> bool" where
  "seq_len_is n t = (\<forall>b \<in> set t. \<forall>h \<in> set b. length h = n)"

definition seq_len_ge :: "nat \<Rightarrow> 'a tensor4 \<Rightarrow> bool" where
  "seq_len_ge n t = (\<forall>b \<in> set t. \<forall>h \<in> set b. n \<le> length h)"

section \<open>clean_up\<close>

text \<open>
  \<^verbatim>\<open>
  def clean_up(cache: DynamicCache, origin_len: int):
      for i in range(len(cache.key_cache)):
          cache.key_cache[i] = cache.key_cache[i][:, :, :origin_len, :]
          cache.value_cache[i] = cache.value_cache[i][:, :, :origin_len, :]
  \<close>
  The function mutates the cache and returns nothing; the model returns the cache as
  the call leaves it, and the exception when one is raised. The loop runs \<open>i\<close> over
  \<open>range(len(cache.key_cache))\<close>: \<open>k\<close> counts the iterations that remain. Reading
  \<^verbatim>\<open>cache.value_cache[i]\<close> raises IndexError when the value list is shorter than the
  key list; the assignment to \<^verbatim>\<open>cache.key_cache[i]\<close> has happened by then.
\<close>

fun clean_up_loop :: "int \<Rightarrow> nat \<Rightarrow> nat \<Rightarrow> 'a dyn_cache \<Rightarrow> 'a dyn_cache \<times> py_error option" where
  "clean_up_loop origin_len i 0 cache = (cache, None)"
| "clean_up_loop origin_len i (Suc k) cache =
     (let cache1 = cache\<lparr>key_cache := (key_cache cache)[i := slice_seq origin_len (key_cache cache ! i)]\<rparr>
      in if i < length (value_cache cache1)
         then clean_up_loop origin_len (Suc i) k
                (cache1\<lparr>value_cache := (value_cache cache1)[i := slice_seq origin_len (value_cache cache1 ! i)]\<rparr>)
         else (cache1, Some IndexError))"

definition clean_up :: "'a dyn_cache \<Rightarrow> int \<Rightarrow> 'a dyn_cache \<times> py_error option" where
  "clean_up cache origin_len = clean_up_loop origin_len 0 (length (key_cache cache)) cache"

text \<open>A cache as the library keeps it: as many value tensors as key tensors.\<close>

definition cache_wf :: "'a dyn_cache \<Rightarrow> bool" where
  "cache_wf cache = (length (value_cache cache) = length (key_cache cache))"

text \<open>Every key and value tensor of the cache has at least, or exactly, \<open>n\<close> sequence positions.\<close>

definition layers_at_least :: "nat \<Rightarrow> 'a dyn_cache \<Rightarrow> bool" where
  "layers_at_least n cache =
     (\<forall>t \<in> set (key_cache cache) \<union> set (value_cache cache). seq_len_ge n t)"

definition layers_exactly :: "nat \<Rightarrow> 'a dyn_cache \<Rightarrow> bool" where
  "layers_exactly n cache =
     (\<forall>t \<in> set (key_cache cache) \<union> set (value_cache cache). seq_len_is n t)"

text \<open>The cache with every layer sliced, which is what \<open>clean_up\<close> computes on a well-formed cache.\<close>

definition truncated :: "int \<Rightarrow> 'a dyn_cache \<Rightarrow> 'a dyn_cache" where
  "truncated n cache =
     cache\<lparr>key_cache := map (slice_seq n) (key_cache cache),
           value_cache := map (slice_seq n) (value_cache cache)\<rparr>"

section \<open>generate\<close>

text \<open>
  Token ids are natural numbers. \<open>input_ids\<close> has shape \<open>[batch, seq]\<close> and the logits the
  model returns have shape \<open>[batch, seq, vocab]\<close>, again as nested lists. The entries of
  the logits are values of a linear order \<open>'l\<close> (floating-point rounding and NaN play no
  part in the code of the notebook and are not modelled).
\<close>

type_synonym ids = "nat list list"

type_synonym 'l logits = "'l list list list"

text \<open>
  The pretrained model is a parameter. \<open>forward m input_ids past_key_values\<close> stands for the
  call \<^verbatim>\<open>model(input_ids=..., past_key_values=..., use_cache=True)\<close>; it yields
  \<^verbatim>\<open>out.logits\<close> and \<^verbatim>\<open>out.past_key_values\<close>. The library updates the cache object it is
  given and hands the same object back, so the second component is also the state in
  which the call leaves the caller's cache. \<open>eos_token_id m\<close> is
  \<^verbatim>\<open>model.config.eos_token_id\<close>, \<open>None\<close> when it is not configured.
\<close>

record ('l, 'c) lm =
  forward :: "ids \<Rightarrow> 'c \<Rightarrow> 'l logits \<times> 'c"
  eos_token_id :: "int option"

text \<open>\<^verbatim>\<open>input_ids.shape[-1]\<close>, read off the first row.\<close>

definition shape_last :: "ids \<Rightarrow> nat" where
  "shape_last t = (case t of [] \<Rightarrow> 0 | r # _ \<Rightarrow> length r)"

text \<open>A nested list is a \<open>[batch, seq]\<close> tensor when its rows have one length.\<close>

definition is_tensor2 :: "ids \<Rightarrow> bool" where
  "is_tensor2 t = (\<forall>r \<in> set t. length r = shape_last t)"

text \<open>\<^verbatim>\<open>out.logits[:, -1, :]\<close>: indexing with \<open>-1\<close> raises IndexError on an empty sequence axis.\<close>

definition last_position :: "'l logits \<Rightarrow> py_error + 'l list list" where
  "last_position lg = (if [] \<in> set lg then Inl IndexError else Inr (map last lg))"

text \<open>
  \<^verbatim>\<open>torch.argmax\<close> along the last axis: the index of the first maximal entry.
  \<open>argmax_from bi bv i xs\<close> scans \<open>xs\<close>, whose head has index \<open>i\<close>, with the best index \<open>bi\<close>
  and the best value \<open>bv\<close> so far. An empty axis raises IndexError.
\<close>

fun argmax_from :: "nat \<Rightarrow> 'l::linorder \<Rightarrow> nat \<Rightarrow> 'l list \<Rightarrow> nat" where
  "argmax_from bi bv i [] = bi"
| "argmax_from bi bv i (x # xs) =
     (if bv < x then argmax_from i x (Suc i) xs else argmax_from bi bv (Suc i) xs)"

definition argmax :: "'l::linorder list \<Rightarrow> nat" where
  "argmax xs = (case xs of [] \<Rightarrow> 0 | x # rest \<Rightarrow> argmax_from 0 x 1 rest)"

text \<open>\<^verbatim>\<open>torch.argmax(logits, dim=-1, keepdim=True)\<close>: shape \<open>[batch, 1]\<close>.\<close>

definition argmax_keepdim :: "'l::linorder list list \<Rightarrow> py_error + ids" where
  "argmax_keepdim logits =
     (if [] \<in> set logits then Inl IndexError else Inr (map (\<lambda>v. [argmax v]) logits))"

text \<open>\<^verbatim>\<open>torch.cat([output_ids, token], dim=-1)\<close>: the batch sizes must agree.\<close>

definition cat_last :: "ids \<Rightarrow> ids \<Rightarrow> py_error + ids" where
  "cat_last a b =
     (if length a = length b then Inr (map (\<lambda>(r, t). r @ t) (zip a b)) else Inl RuntimeError)"

text \<open>\<^verbatim>\<open>token.item()\<close>: the value of a tensor of exactly one element.\<close>

definition item :: "ids \<Rightarrow> py_error + nat" where
  "item token = (case token of [[t]] \<Rightarrow> Inr t | _ \<Rightarrow> Inl RuntimeError)"

text \<open>
  \<^verbatim>\<open>
  for _ in range(max_new_tokens):
      out = model(input_ids=next_token, past_key_values=past_key_values, use_cache=True)
      logits = out.logits[:, -1, :]
      token = torch.argmax(logits, dim=-1, keepdim=True)
      output_ids = torch.cat([output_ids, token], dim=-1)
      past_key_values = out.past_key_values
      next_token = token.to(device)
      if model.config.eos_token_id is not None and token.item() == model.config.eos_token_id:
          break
  \<close>
  The first argument counts the iterations that remain. The transfers \<^verbatim>\<open>.to(device)\<close>
  move a tensor and keep its value.
\<close>

fun generate_loop ::
  "('l::linorder, 'c) lm \<Rightarrow> nat \<Rightarrow> ids \<Rightarrow> 'c \<Rightarrow> ids \<Rightarrow> py_error + (ids \<times> 'c)" where
  "generate_loop m 0 next_token past_key_values output_ids = Inr (output_ids, past_key_values)"
| "generate_loop m (Suc n) next_token past_key_values output_ids =
     (case forward m next_token past_key_values of (out_logits, out_past) \<Rightarrow>
      (case last_position out_logits of Inl e \<Rightarrow> Inl e | Inr logits \<Rightarrow>
      (case argmax_keepdim logits of Inl e \<Rightarrow> Inl e | Inr token \<Rightarrow>
      (case cat_last output_ids token of Inl e \<Rightarrow> Inl e | Inr output_ids' \<Rightarrow>
      (case eos_token_id m of
         None \<Rightarrow> generate_loop m n token out_past output_ids'
       | Some eos \<Rightarrow>
           (case item token of Inl e \<Rightarrow> Inl e
            | Inr t \<Rightarrow> if int t = eos then Inr (output_ids', out_past)
                       else generate_loop m n token out_past output_ids'))))))"

text \<open>
  \<^verbatim>\<open>
  def generate(model, input_ids, past_key_values, max_new_tokens: int = 50):
      origin_len = input_ids.shape[-1]
      output_ids = input_ids.clone()
      next_token = input_ids
      ... the loop ...
      return output_ids[:, origin_len:]
  \<close>
  \<open>range(max_new_tokens)\<close> is empty for a negative argument. The result carries the cache
  as the call leaves it beside the returned tensor.
\<close>

definition generate ::
  "('l::linorder, 'c) lm \<Rightarrow> ids \<Rightarrow> 'c \<Rightarrow> int \<Rightarrow> py_error + (ids \<times> 'c)" where
  "generate m input_ids past_key_values max_new_tokens =
     (let origin_len = shape_last input_ids in
      case generate_loop m (nat max_new_tokens) input_ids past_key_values input_ids of
        Inl e \<Rightarrow> Inl e
      | Inr (output_ids, past) \<Rightarrow> Inr (map (drop origin_len) output_ids, past))"

text \<open>
  An observer of the model: \<open>logged m\<close> behaves as \<open>m\<close> and keeps, beside the cache, the
  list of the calls made so far, each with the input fed, the cache passed, the logits
  returned and the cache returned.
\<close>

type_synonym ('l, 'c) call = "ids \<times> 'c \<times> 'l logits \<times> 'c"

definition logged :: "('l, 'c) lm \<Rightarrow> ('l, 'c \<times> ('l, 'c) call list) lm" where
  "logged m =
     \<lparr>forward = (\<lambda>input_ids (c, calls).
          case forward m input_ids c of
            (lg, c') \<Rightarrow> (lg, (c', calls @ [(input_ids, c, lg, c')]))),
      eos_token_id = eos_token_id m\<rparr>"

text \<open>The inputs fed to the model during a call of \<open>generate\<close> on the observed model, in order.\<close>

definition fed_inputs :: "py_error + (ids \<times> 'c \<times> ('l, 'c) call list) \<Rightarrow> ids list" where
  "fed_inputs r = (case r of Inl _ \<Rightarrow> [] | Inr (_, _, calls) \<Rightarrow> map fst calls)"

section \<open>get_kv_cache\<close>

text \<open>
  \<^verbatim>\<open>
  def get_kv_cache(model, tokenizer, prompt: str) -> DynamicCache:
      input_ids = tokenizer(prompt, return_tensors="pt").input_ids.to(device)
      cache = DynamicCache()
      with torch.no_grad():
          _ = model(input_ids=input_ids, past_key_values=cache, use_cache=True)
      return cache
  \<close>
  The tokenizer is a parameter: it maps a string to its token ids, and
  \<^verbatim>\<open>tokenizer(prompt, return_tensors="pt").input_ids\<close> is the tensor with that one row. The
  output of the model is dropped; \<open>cache\<close> is returned as the call of the model left it.
\<close>

definition get_kv_cache :: "('l, 'a dyn_cache) lm \<Rightarrow> (string \<Rightarrow> nat list) \<Rightarrow> string \<Rightarrow> 'a dyn_cache" where
  "get_kv_cache m tokenizer prompt =
     (let input_ids = [tokenizer prompt]; cache = DynamicCache
      in snd (forward m input_ids cache))"

text \<open>
  What the library promises of a model with \<open>L\<close> layers, as far as the notebook relies on
  it. A tensor has extent \<open>n\<close> when its batch and head axes are not empty and its
  sequence axis has length \<open>n\<close>; a cache has extent \<open>n\<close> when it holds \<open>L\<close> key and \<open>L\<close>
  value tensors of that extent. A call of the model on an empty cache leaves a cache
  whose extent is the number of input positions, and a call on a cache of extent \<open>n\<close>
  adds the number of input positions to it.
\<close>

definition seq_extent :: "nat \<Rightarrow> 'a tensor4 \<Rightarrow> bool" where
  "seq_extent n t = (t \<noteq> [] \<and> [] \<notin> set t \<and> seq_len_is n t)"

definition cache_extent :: "nat \<Rightarrow> nat \<Rightarrow> 'a dyn_cache \<Rightarrow> bool" where
  "cache_extent L n cache =
     (length (key_cache cache) = L \<and> length (value_cache cache) = L \<and>
      (\<forall>t \<in> set (key_cache cache). seq_extent n t) \<and>
      (\<forall>t \<in> set (value_cache cache). seq_extent n t))"

definition kv_appends :: "nat \<Rightarrow> ('l, 'a dyn_cache) lm \<Rightarrow> bool" where
  "kv_appends L m =
     (0 < L \<and>
      (\<forall>input_ids. cache_extent L (shape_last input_ids) (snd (forward m input_ids DynamicCache))) \<and>
      (\<forall>input_ids cache n. cache_extent L n cache \<longrightarrow>
         cache_extent L (n + shape_last input_ids) (snd (forward m input_ids cache))))"

section \<open>get_env\<close>

text \<open>
  The file system is a parameter: a path is mapped to the lines of the regular file it
  names, as iterating the open file yields them, and to \<open>None\<close> when nothing is there.
  Characters are those of \<open>char\<close> (code points below 256).
\<close>

type_synonym files = "string \<rightharpoonup> string list"

text \<open>The characters \<^verbatim>\<open>str.strip()\<close> removes: those for which \<^verbatim>\<open>str.isspace\<close> holds.\<close>

definition is_space :: "char \<Rightarrow> bool" where
  "is_space c = ((of_char c :: nat) \<in> {9, 10, 11, 12, 13, 28, 29, 30, 31, 32, 133, 160})"

definition strip_with :: "(char \<Rightarrow> bool) \<Rightarrow> string \<Rightarrow> string" where
  "strip_with p s = rev (dropWhile p (rev (dropWhile p s)))"

text \<open>\<^verbatim>\<open>s.strip()\<close> and \<^verbatim>\<open>s.strip('"')\<close>.\<close>

definition strip :: "string \<Rightarrow> string" where
  "strip s = strip_with is_space s"

definition strip_quotes :: "string \<Rightarrow> string" where
  "strip_quotes s = strip_with (\<lambda>c. c = CHR 0x22) s"

text \<open>\<^verbatim>\<open>s.split(sep)\<close> for a separator of one character: one more part than separators.\<close>

fun split_on :: "char \<Rightarrow> string \<Rightarrow> string list" where
  "split_on sep [] = [[]]"
| "split_on sep (c # cs) =
     (if c = sep then [] # split_on sep cs
      else (case split_on sep cs of [] \<Rightarrow> [[c]] | p # ps \<Rightarrow> (c # p) # ps))"

text \<open>
  \<^verbatim>\<open>
  for line in f:
      key, value = line.strip().split("=")
      env_dict[key] = value.strip('"')
  \<close>
  Unpacking anything but two parts raises ValueError.
\<close>

fun get_env_loop :: "string list \<Rightarrow> (string \<rightharpoonup> string) \<Rightarrow> py_error + (string \<rightharpoonup> string)" where
  "get_env_loop [] env_dict = Inr env_dict"
| "get_env_loop (line # rest) env_dict =
     (case split_on CHR ''='' (strip line) of
        [key, val] \<Rightarrow> get_env_loop rest (env_dict(key \<mapsto> strip_quotes val))
      | _ \<Rightarrow> Inl ValueError)"

text \<open>
  \<^verbatim>\<open>
  def get_env():
      env_dict = {}
      env_file = ".env" if os.path.exists(".env") else "env"
      if os.path.exists(env_file):
          with open(env_file, mode="r") as f:
              ... the loop ...
      else:
          print("No .env or env file found; HF_TOKEN may not be set.")
      return env_dict
  \<close>
  The first component of the result lists the paths given to \<^verbatim>\<open>os.path.exists\<close>, in
  the order of the calls.
\<close>

definition get_env :: "files \<Rightarrow> string list \<times> (py_error + (string \<rightharpoonup> string))" where
  "get_env fs =
     (let env_file = (if fs ''.env'' \<noteq> None then ''.env'' else ''env'')
      in ([''.env'', env_file],
          case fs env_file of
            Some lines \<Rightarrow> get_env_loop lines Map.empty
          | None \<Rightarrow> Inr Map.empty))"

text \<open>The file \<open>get_env\<close> reads, if there is one.\<close>

definition env_lines :: "files \<Rightarrow> string list option" where
  "env_lines fs = (if fs ''.env'' \<noteq> None then fs ''.env'' else fs ''env'')"

text \<open>The entry a line with one \<open>=\<close> contributes.\<close>

definition env_entry :: "string \<Rightarrow> string \<times> string" where
  "env_entry line =
     (case split_on CHR ''='' (strip line) of
        [key, val] \<Rightarrow> (key, strip_quotes val)
      | _ \<Rightarrow> ([], []))"

section \<open>The cells of the notebook\<close>

text \<open>
  What a run of the cells starts from: the file system, the tokenizer and the model that
  the loading cell binds, and the binding of the global name \<^verbatim>\<open>device\<close> in the kernel's
  namespace, \<open>None\<close> when the name is unbound. No cell of the notebook assigns
  \<^verbatim>\<open>device\<close> (the assignment in the loading cell is commented out; \<open>generate\<close> and
  \<open>get_kv_cache\<close> bind a local of that name), so a kernel that has run only these cells
  has it unbound.
\<close>

record ('l, 'a) kernel =
  files :: files
  tokenizer :: "string \<Rightarrow> nat list"
  model :: "('l, 'a dyn_cache) lm"
  device :: "string option"

text \<open>
  The calls a run makes, in order: \<^verbatim>\<open>os.path.exists\<close> with its path, the tokenizer with
  its text, \<open>get_kv_cache\<close> with its prompt, \<open>clean_up\<close> with the cache as it leaves it,
  and \<open>generate\<close> with its input and the cache it is given.
\<close>

datatype 'a event =
    PathExists string
  | Tokenize string
  | GetKvCache string
  | CleanUp "'a dyn_cache"
  | Generate ids "'a dyn_cache"

text \<open>
  \<^verbatim>\<open>
  system_prompt = f"""
  <|system|>
  You are an assistant who provides concise factual answers.
  <|user|>
  Context:
  {doc_text}
  Question:
  """.strip()
  \<close>
\<close>

definition system_prompt :: "string \<Rightarrow> string" where
  "system_prompt doc_text =
     strip (''\<newline><|system|>\<newline>You are an assistant who provides concise factual answers.\<newline><|user|>\<newline>Context:\<newline>''
            @ doc_text @ ''\<newline>Question:\<newline>'')"

text \<open>
  \<^verbatim>\<open>
  if not os.path.exists("document.txt"):
      raise FileNotFoundError(...)
  with open("document.txt", "r", encoding="utf-8") as f:
      doc_text = f.read()
  system_prompt = ...
  ronan_cache = get_kv_cache(model, tokenizer, system_prompt)
  origin_len = ronan_cache.key_cache[0].shape[-2]
  \<close>
  The cell binds the globals \<open>ronan_cache\<close> and \<open>origin_len\<close>, which are its result.
  \<^verbatim>\<open>key_cache[0]\<close> raises IndexError on a cache without layers.
\<close>

definition document_cell :: "('l, 'a) kernel \<Rightarrow> 'a event list \<times> (py_error + ('a dyn_cache \<times> nat))" where
  "document_cell k =
     (case files k ''document.txt'' of
        None \<Rightarrow> ([PathExists ''document.txt''], Inl FileNotFoundError)
      | Some lines \<Rightarrow>
          (let doc_text = concat lines;
               prompt = system_prompt doc_text;
               ronan_cache = get_kv_cache (model k) (tokenizer k) prompt
           in ([PathExists ''document.txt'', GetKvCache prompt, Tokenize prompt],
               case key_cache ronan_cache of
                 [] \<Rightarrow> Inl IndexError
               | t # _ \<Rightarrow> Inr (ronan_cache, shape_seq t))))"

text \<open>
  \<^verbatim>\<open>
  clean_up(ronan_cache, origin_len)
  input_ids_q1 = tokenizer(question1 + "\n", return_tensors="pt").input_ids.to(device)
  gen_ids_q1 = generate(model, input_ids_q1, ronan_cache)
  answer1 = tokenizer.decode(gen_ids_q1[0], skip_special_tokens=True)
  \<close>
  The tokenizer is called before the argument \<^verbatim>\<open>device\<close> is evaluated; the name is a
  global here, and an unbound name raises NameError. \<open>generate\<close> runs with its default of
  50 new tokens. The result is the globals after the cell and the row \<^verbatim>\<open>gen_ids_q1[0]\<close>
  (decoding and printing it are left to the library).
\<close>

definition query_cell ::
  "('l::linorder, 'a) kernel \<Rightarrow> string \<Rightarrow> 'a dyn_cache \<times> nat \<Rightarrow>
     'a event list \<times> (py_error + (('a dyn_cache \<times> nat) \<times> nat list))" where
  "query_cell k question g =
     (case g of (ronan_cache, origin_len) \<Rightarrow>
      (case clean_up ronan_cache (int origin_len) of
         (cache1, Some e) \<Rightarrow> ([CleanUp cache1], Inl e)
       | (cache1, None) \<Rightarrow>
           (let text = question @ ''\<newline>''; input_ids = [tokenizer k text]
            in (case device k of
                  None \<Rightarrow> ([CleanUp cache1, Tokenize text], Inl NameError)
                | Some _ \<Rightarrow>
                    ([CleanUp cache1, Tokenize text, Generate input_ids cache1],
                     case generate (model k) input_ids cache1 50 of
                       Inl e \<Rightarrow> Inl e
                     | Inr (gen_ids, cache2) \<Rightarrow>
                         (case gen_ids of
                            [] \<Rightarrow> Inl IndexError
                          | r # _ \<Rightarrow> Inr ((cache2, origin_len), r)))))))"

definition question1 :: string where
  "question1 = ''Who is Priya Nair?''"

definition question2 :: string where
  "question2 = ''What are his main projects?''"

text \<open>
  The cells in order, from the document cell on; the first exception ends the run. The
  cells before it define the functions, set \<^verbatim>\<open>HF_TOKEN\<close> to a constant (the call of
  \<open>get_env\<close> is commented out) and load the tokenizer and the model. The result is the
  calls made and either the exception or the two answers.
\<close>

definition run_all ::
  "('l::linorder, 'a) kernel \<Rightarrow> 'a event list \<times> (py_error + (nat list \<times> nat list))" where
  "run_all k =
     (case document_cell k of
        (ev0, Inl e) \<Rightarrow> (ev0, Inl e)
      | (ev0, Inr g0) \<Rightarrow>
          (case query_cell k question1 g0 of
             (ev1, Inl e) \<Rightarrow> (ev0 @ ev1, Inl e)
           | (ev1, Inr (g1, answer1)) \<Rightarrow>
               (case query_cell k question2 g1 of
                  (ev2, Inl e) \<Rightarrow> (ev0 @ ev1 @ ev2, Inl e)
                | (ev2, Inr (g2, answer2)) \<Rightarrow> (ev0 @ ev1 @ ev2, Inr (answer1, answer2)))))"

text \<open>Projections of the calls of a run.\<close>

definition paths_tested :: "'a event list \<Rightarrow> string list" where
  "paths_tested evs = concat (map (\<lambda>e. case e of PathExists p \<Rightarrow> [p] | _ \<Rightarrow> []) evs)"

definition texts_tokenized :: "'a event list \<Rightarrow> string list" where
  "texts_tokenized evs = concat (map (\<lambda>e. case e of Tokenize s \<Rightarrow> [s] | _ \<Rightarrow> []) evs)"

definition prompts_cached :: "'a event list \<Rightarrow> string list" where
  "prompts_cached evs = concat (map (\<lambda>e. case e of GetKvCache s \<Rightarrow> [s] | _ \<Rightarrow> []) evs)"

definition caches_cleaned :: "'a event list \<Rightarrow> 'a dyn_cache list" where
  "caches_cleaned evs = concat (map (\<lambda>e. case e of CleanUp c \<Rightarrow> [c] | _ \<Rightarrow> []) evs)"

definition generate_calls :: "'a event list \<Rightarrow> (ids \<times> 'a dyn_cache) list" where
  "generate_calls evs = concat (map (\<lambda>e. case e of Generate i c \<Rightarrow> [(i, c)] | _ \<Rightarrow> []) evs)"

section \<open>A small model for concrete runs\<close>

text \<open>
  A model of two layers over a vocabulary of five tokens, with token 4 as the end of
  sequence: after token \<open>t\<close> it prefers token \<open>(t + 1) mod 5\<close>, and it stores the first
  row's tokens, one position each, in every layer.
\<close>

definition toy_logits :: "nat \<Rightarrow> nat list" where
  "toy_logits t = map (\<lambda>j. if j = Suc t mod 5 then 1 else 0) [0..<5]"

definition toy_positions :: "ids \<Rightarrow> nat list list" where
  "toy_positions input_ids = map (\<lambda>t. [t]) (case input_ids of [] \<Rightarrow> [] | r # _ \<Rightarrow> r)"

definition toy_forward :: "ids \<Rightarrow> nat dyn_cache \<Rightarrow> nat logits \<times> nat dyn_cache" where
  "toy_forward input_ids cache =
     (map (map toy_logits) input_ids,
      if key_cache cache = []
      then \<lparr>key_cache = replicate 2 [[toy_positions input_ids]],
            value_cache = replicate 2 [[toy_positions input_ids]]\<rparr>
      else cache\<lparr>key_cache := map (map (map (\<lambda>h. h @ toy_positions input_ids))) (key_cache cache),
                 value_cache := map (map (map (\<lambda>h. h @ toy_positions input_ids))) (value_cache cache)\<rparr>)"

definition toy_model :: "(nat, nat dyn_cache) lm" where
  "toy_model = \<lparr>forward = toy_forward, eos_token_id = Some 4\<rparr>"

definition toy_tokenizer :: "string \<Rightarrow> nat list" where
  "toy_tokenizer s = map of_char s"

definition toy_files :: files where
  "toy_files = [''document.txt'' \<mapsto> [''Ada proves.\<newline>'']]"

definition toy_kernel :: "string option \<Rightarrow> (nat, nat) kernel" where
  "toy_kernel dev = \<lparr>files = toy_files, tokenizer = toy_tokenizer, model = toy_model, device = dev\<rparr>"

text \<open>A cache of two layers with three positions, one batch entry and one head.\<close>

definition example_cache :: "nat dyn_cache" where
  "example_cache =
     \<lparr>key_cache = [[[[[1], [2], [3]]]], [[[[4], [5], [6]]]]],
      value_cache = [[[[[7], [8], [9]]]], [[[[10], [11], [12]]]]]\<rparr>"

section \<open>Notions used in the statements\<close>

text \<open>A line unpacks into \<^verbatim>\<open>key, value\<close> when splitting it yields two parts.\<close>

definition two_parts :: "string \<Rightarrow> bool" where
  "two_parts line = (length (split_on CHR ''='' (strip line)) = 2)"

definition all_two_parts :: "string list \<Rightarrow> bool" where
  "all_two_parts lines = (\<forall>l \<in> set lines. two_parts l)"

text \<open>
  What stripping the surrounding double quotes means, in the words of the specification and
  apart from the code: \<open>v\<close> is \<open>raw\<close> without a run of double quotes at its start and a
  run of double quotes at its end, and \<open>v\<close> itself neither starts nor ends with one.
\<close>

definition quotes_stripped :: "string \<Rightarrow> string \<Rightarrow> bool" where
  "quotes_stripped raw v =
     (\<exists>a b. raw = a @ v @ b \<and> set a \<subseteq> {CHR 0x22} \<and> set b \<subseteq> {CHR 0x22} \<and>
            (v = [] \<or> (hd v \<noteq> CHR 0x22 \<and> last v \<noteq> CHR 0x22)))"

text \<open>
  The entry a line stands for: the stripped line is the key, one \<open>=\<close> and the raw
  value, neither of which holds an \<open>=\<close>, and the entry pairs the key with the raw value
  stripped of its surrounding double quotes.
\<close>

definition entry_of_line :: "string \<Rightarrow> string \<times> string \<Rightarrow> bool" where
  "entry_of_line line e =
     (\<exists>raw. strip line = fst e @ ''='' @ raw \<and>
            CHR ''='' \<notin> set (fst e) \<and> CHR ''='' \<notin> set raw \<and>
            quotes_stripped raw (snd e))"

text \<open>
  A file system with an \<^verbatim>\<open>env\<close> file of three lines, the first with its value in
  double quotes and the last two with the same key, and one whose \<^verbatim>\<open>.env\<close> file has a
  line with two \<open>=\<close>.
\<close>

definition example_env :: files where
  "example_env =
     [''env'' \<mapsto> [''HF_TOKEN='' @ [CHR 0x22] @ ''abc'' @ [CHR 0x22] @ ''\<newline>'',
                  ''A = b\<newline>'', ''A = c'']]"

definition bad_env :: files where
  "bad_env = [''.env'' \<mapsto> [''A=b=c'']]"

text \<open>
  In the row \<open>r\<close> the token \<open>eos\<close> occurs at the last position or not at all.
\<close>

definition eos_only_last :: "int \<Rightarrow> nat list \<Rightarrow> bool" where
  "eos_only_last eos r = (\<forall>i < length r. int (r ! i) = eos \<longrightarrow> Suc i = length r)"

text \<open>
  The row \<open>r'\<close> is \<open>r\<close> followed by at most \<open>n\<close> tokens, among which the end-of-sequence
  token of the model, when one is configured, can only be the last.
\<close>

definition row_grows :: "('l, 'c) lm \<Rightarrow> nat \<Rightarrow> nat list \<Rightarrow> nat list \<Rightarrow> bool" where
  "row_grows m n r r' =
     (\<exists>t. r' = r @ t \<and> length t \<le> n \<and> (\<forall>e. eos_token_id m = Some e \<longrightarrow> eos_only_last e t))"

text \<open>The parts of an observed call, and the \<open>[batch, 1]\<close> tensor of tokens it yields.\<close>

definition call_input :: "('l, 'c) call \<Rightarrow> ids" where
  "call_input cl = fst cl"

definition call_past :: "('l, 'c) call \<Rightarrow> 'c" where
  "call_past cl = fst (snd cl)"

definition call_logits :: "('l, 'c) call \<Rightarrow> 'l logits" where
  "call_logits cl = fst (snd (snd cl))"

definition call_out :: "('l, 'c) call \<Rightarrow> 'c" where
  "call_out cl = snd (snd (snd cl))"

definition produced :: "('l::linorder, 'c) call \<Rightarrow> ids" where
  "produced cl = map (\<lambda>v. [argmax (last v)]) (call_logits cl)"

text \<open>
  A list of calls is chained from the input \<open>nx\<close> and the cache \<open>c\<close> when the first call is
  the model's on \<open>nx\<close> and \<open>c\<close>, and every further call is the model's on the tokens the
  call before it produced and on the cache that call returned. \<open>end_cache\<close> is the cache
  the last call returned.
\<close>

fun chained :: "('l::linorder, 'c) lm \<Rightarrow> ids \<Rightarrow> 'c \<Rightarrow> ('l, 'c) call list \<Rightarrow> bool" where
  "chained m nx c [] = True"
| "chained m nx c (cl # rest) =
     (call_input cl = nx \<and> call_past cl = c \<and>
      forward m nx c = (call_logits cl, call_out cl) \<and>
      chained m (produced cl) (call_out cl) rest)"

fun end_cache :: "'c \<Rightarrow> ('l, 'c) call list \<Rightarrow> 'c" where
  "end_cache c [] = c"
| "end_cache c (cl # rest) = end_cache (call_out cl) rest"

text \<open>Every cache of the list has extent \<open>n\<close>.\<close>

definition all_extent :: "nat \<Rightarrow> nat \<Rightarrow> 'a dyn_cache list \<Rightarrow> bool" where
  "all_extent L n cs = (\<forall>c \<in> set cs. cache_extent L n c)"

text \<open>A kernel whose directory holds no \<^verbatim>\<open>document.txt\<close>.\<close>

definition empty_kernel :: "(nat, nat) kernel" where
  "empty_kernel = \<lparr>files = Map.empty, tokenizer = toy_tokenizer, model = toy_model, device = None\<rparr>"

text \<open>
  A model is well shaped when, on an input without empty rows, it returns logits with
  one entry per input row, none with an empty sequence axis or an empty vocabulary at
  the last position.
\<close>

definition well_shaped :: "('l, 'c) lm \<Rightarrow> bool" where
  "well_shaped m =
     (\<forall>input_ids c. [] \<notin> set input_ids \<longrightarrow>
        length (fst (forward m input_ids c)) = length input_ids \<and>
        [] \<notin> set (fst (forward m input_ids c)) \<and>
        [] \<notin> set (map last (fst (forward m input_ids c))))"

section \<open>Properties of clean_up\<close>

text \<open>
  What the loop leaves, position by position: the lists keep their lengths, the
  exception depends only on the lengths, and layer \<open>p\<close> is sliced when the loop reaches it.
\<close>

lemma clean_up_loop_lengths:
  "length (key_cache (fst (clean_up_loop n i k c))) = length (key_cache c) \<and>
   length (value_cache (fst (clean_up_loop n i k c))) = length (value_cache c) \<and>
   dyn_cache.more (fst (clean_up_loop n i k c)) = dyn_cache.more c"
  by (induction k arbitrary: i c) (simp_all add: Let_def)

lemma clean_up_loop_error:
  "snd (clean_up_loop n i k c) =
     (if 0 < k \<and> length (value_cache c) < i + k then Some IndexError else None)"
  by (induction k arbitrary: i c) (auto simp add: Let_def)

lemma clean_up_loop_key_nth:
  "i + k \<le> length (key_cache c) \<Longrightarrow> i \<le> length (value_cache c) \<Longrightarrow> p < length (key_cache c) \<Longrightarrow>
   key_cache (fst (clean_up_loop n i k c)) ! p =
     (if i \<le> p \<and> p < i + k \<and> p \<le> length (value_cache c)
      then slice_seq n (key_cache c ! p) else key_cache c ! p)"
proof (induction k arbitrary: i c)
  case 0
  then show ?case by auto
next
  case (Suc k)
  show ?case
  proof (cases "p = i")
    case True
    with Suc show ?thesis by (auto simp add: Let_def nth_list_update)
  next
    case False
    with Suc show ?thesis by (auto simp add: Let_def nth_list_update)
  qed
qed

lemma clean_up_loop_value_nth:
  "i + k \<le> length (key_cache c) \<Longrightarrow> p < length (value_cache c) \<Longrightarrow>
   value_cache (fst (clean_up_loop n i k c)) ! p =
     (if i \<le> p \<and> p < i + k then slice_seq n (value_cache c ! p) else value_cache c ! p)"
proof (induction k arbitrary: i c)
  case 0
  then show ?case by auto
next
  case (Suc k)
  show ?case
  proof (cases "p = i")
    case True
    with Suc show ?thesis by (auto simp add: Let_def nth_list_update)
  next
    case False
    with Suc show ?thesis by (auto simp add: Let_def nth_list_update)
  qed
qed

text \<open>On a well-formed cache the call raises nothing and slices every layer.\<close>

lemma clean_up_wf:
  assumes "cache_wf c"
  shows "clean_up c n = (truncated n c, None)"
proof -
  let ?r = "clean_up_loop n 0 (length (key_cache c)) c"
  have len: "length (value_cache c) = length (key_cache c)"
    using assms by (simp add: cache_wf_def)
  have k: "key_cache (fst ?r) = key_cache (truncated n c)"
    by (rule nth_equalityI)
       (simp_all add: clean_up_loop_lengths clean_up_loop_key_nth truncated_def len)
  have v: "value_cache (fst ?r) = value_cache (truncated n c)"
    by (rule nth_equalityI)
       (simp_all add: clean_up_loop_lengths clean_up_loop_value_nth truncated_def len)
  have m: "dyn_cache.more (fst ?r) = dyn_cache.more (truncated n c)"
    by (simp add: clean_up_loop_lengths truncated_def)
  have "fst ?r = truncated n c"
    using k v m by (rule dyn_cache.equality)
  moreover have "snd ?r = None"
    by (simp add: clean_up_loop_error len)
  ultimately show ?thesis
    by (simp add: clean_up_def prod_eq_iff)
qed

lemma slice_to_idem: "0 \<le> n \<Longrightarrow> slice_to n (slice_to n xs) = slice_to n xs"
  by (simp add: slice_to_def)

lemma slice_seq_idem: "0 \<le> n \<Longrightarrow> slice_seq n (slice_seq n t) = slice_seq n t"
  by (simp add: slice_seq_def slice_to_idem)

lemma slice_seq_take: "0 \<le> n \<Longrightarrow> slice_seq n t = map (map (take (nat n))) t"
  by (simp add: slice_seq_def slice_to_def)

lemma seq_len_is_slice:
  "0 \<le> n \<Longrightarrow> seq_len_ge (nat n) t \<Longrightarrow> seq_len_is (nat n) (slice_seq n t)"
  by (auto simp add: slice_seq_take seq_len_is_def seq_len_ge_def)

text \<open>
  C3. On a cache that holds as many value tensors as key tensors, all with at least
  \<open>origin_len\<close> sequence positions, and for \<open>origin_len\<close> not negative, \<open>clean_up\<close> raises
  nothing and leaves in every layer the key and the value tensor cut to their first
  \<open>origin_len\<close> positions along the sequence axis: the batch and head axes are kept, each
  retained position keeps its row, and every tensor then has exactly \<open>origin_len\<close>
  positions.
\<close>

theorem clean_up_truncates:
  assumes "cache_wf cache" and "0 \<le> origin_len"
    and "layers_at_least (nat origin_len) cache"
  shows "snd (clean_up cache origin_len) = None \<and>
         key_cache (fst (clean_up cache origin_len))
           = map (map (map (take (nat origin_len)))) (key_cache cache) \<and>
         value_cache (fst (clean_up cache origin_len))
           = map (map (map (take (nat origin_len)))) (value_cache cache) \<and>
         layers_exactly (nat origin_len) (fst (clean_up cache origin_len))"
proof -
  have r: "clean_up cache origin_len = (truncated origin_len cache, None)"
    using assms(1) by (rule clean_up_wf)
  have k: "key_cache (truncated origin_len cache)
             = map (map (map (take (nat origin_len)))) (key_cache cache)"
    using assms(2) by (simp add: truncated_def slice_seq_take)
  have v: "value_cache (truncated origin_len cache)
             = map (map (map (take (nat origin_len)))) (value_cache cache)"
    using assms(2) by (simp add: truncated_def slice_seq_take)
  have e: "layers_exactly (nat origin_len) (truncated origin_len cache)"
    using assms(2,3)
    by (auto simp add: layers_exactly_def layers_at_least_def truncated_def seq_len_is_slice)
  show ?thesis
    using k v e by (simp add: r)
qed

theorem clean_up_truncates_witness:
  "cache_wf example_cache \<and> (0::int) \<le> 2 \<and> layers_at_least (nat 2) example_cache \<and>
   snd (clean_up example_cache 2) = None \<and>
   key_cache (fst (clean_up example_cache 2)) = [[[[[1], [2]]]], [[[[4], [5]]]]] \<and>
   value_cache (fst (clean_up example_cache 2)) = [[[[[7], [8]]]], [[[[10], [11]]]]] \<and>
   layers_exactly (nat 2) (fst (clean_up example_cache 2))"
proof -
  have h1: "cache_wf example_cache"
    by (simp add: cache_wf_def example_cache_def)
  have h2: "(0::int) \<le> 2"
    by simp
  have h3: "layers_at_least (nat 2) example_cache"
    by (simp add: layers_at_least_def example_cache_def seq_len_ge_def)
  show ?thesis
    using h1 h3 clean_up_truncates [OF h1 h2 h3]
    by (simp add: example_cache_def)
qed

text \<open>
  Without the bound on \<open>origin_len\<close> the statement fails: the tensors of the example
  have three positions, which is more than \<open>-1\<close>, and \<open>clean_up\<close> with \<open>-1\<close> leaves the
  first two, as the slice \<^verbatim>\<open>[:-1]\<close> of Python does.
\<close>

theorem clean_up_negative_counterexample:
  "cache_wf example_cache \<and> layers_exactly 3 example_cache \<and> (- 1 :: int) \<le> 3 \<and>
   snd (clean_up example_cache (- 1)) = None \<and>
   key_cache (fst (clean_up example_cache (- 1))) = [[[[[1], [2]]]], [[[[4], [5]]]]] \<and>
   value_cache (fst (clean_up example_cache (- 1))) = [[[[[7], [8]]]], [[[[10], [11]]]]] \<and>
   layers_exactly 2 (fst (clean_up example_cache (- 1)))"
proof -
  have w: "cache_wf example_cache"
    by (simp add: cache_wf_def example_cache_def)
  have c: "clean_up example_cache (- 1) = (truncated (- 1) example_cache, None)"
    using w by (rule clean_up_wf)
  have t: "truncated (- 1) example_cache
             = \<lparr>key_cache = [[[[[1], [2]]]], [[[[4], [5]]]]],
                value_cache = [[[[[7], [8]]]], [[[[10], [11]]]]]\<rparr>"
    by (simp add: truncated_def example_cache_def slice_seq_def slice_to_def)
  have e: "layers_exactly 3 example_cache"
    by (simp add: layers_exactly_def example_cache_def seq_len_is_def)
  show ?thesis
    using w e by (simp add: c t layers_exactly_def seq_len_is_def)
qed

text \<open>
  C8. For \<open>origin_len\<close> not negative, a second call of \<open>clean_up\<close> right after the first
  leaves the cache as the first call left it, and raises what the first raised.
\<close>

theorem clean_up_idempotent:
  assumes "0 \<le> origin_len"
  shows "clean_up (fst (clean_up cache origin_len)) origin_len = clean_up cache origin_len"
proof -
  let ?K = "length (key_cache cache)"
  let ?d = "fst (clean_up_loop origin_len 0 ?K cache)"
  let ?e = "fst (clean_up_loop origin_len 0 ?K ?d)"
  have len: "length (key_cache ?d) = ?K" "length (value_cache ?d) = length (value_cache cache)"
    using clean_up_loop_lengths [of origin_len 0 ?K cache] by simp_all
  have k: "key_cache ?e = key_cache ?d"
    by (rule nth_equalityI)
       (simp_all add: clean_up_loop_lengths clean_up_loop_key_nth slice_seq_idem [OF assms])
  have v: "value_cache ?e = value_cache ?d"
    by (rule nth_equalityI)
       (simp_all add: clean_up_loop_lengths clean_up_loop_value_nth slice_seq_idem [OF assms])
  have m: "dyn_cache.more ?e = dyn_cache.more ?d"
    by (simp add: clean_up_loop_lengths)
  have s: "snd (clean_up_loop origin_len 0 ?K ?d) = snd (clean_up_loop origin_len 0 ?K cache)"
    by (simp add: clean_up_loop_error len)
  have "?e = ?d"
    using k v m by (rule dyn_cache.equality)
  then show ?thesis
    using s len by (simp add: clean_up_def prod_eq_iff)
qed

theorem clean_up_idempotent_witness:
  "(0::int) \<le> 2 \<and>
   clean_up (fst (clean_up example_cache 2)) 2 = clean_up example_cache 2 \<and>
   key_cache (fst (clean_up example_cache 2)) \<noteq> key_cache example_cache"
proof -
  have h: "(0::int) \<le> 2"
    by simp
  have c: "clean_up example_cache 2 = (truncated 2 example_cache, None)"
    by (rule clean_up_wf) (simp add: cache_wf_def example_cache_def)
  have n: "key_cache (fst (clean_up example_cache 2)) \<noteq> key_cache example_cache"
    unfolding c by (simp add: truncated_def example_cache_def slice_seq_def slice_to_def)
  show ?thesis
    using clean_up_idempotent [OF h, of example_cache] n by simp
qed

section \<open>Properties of get_env\<close>

lemma length_split_on: "length (split_on sep s) = Suc (count_list s sep)"
  by (induction s) (auto split: list.splits)

lemma count_list_dropWhile: "\<not> p c \<Longrightarrow> count_list (dropWhile p s) c = count_list s c"
  by (induction s) auto

lemma count_list_strip_with: "\<not> p c \<Longrightarrow> count_list (strip_with p s) c = count_list s c"
  by (simp add: strip_with_def count_list_dropWhile)

lemma count_eq_strip: "count_list (strip l) CHR ''='' = count_list l CHR ''=''"
  by (simp add: strip_def count_list_strip_with is_space_def)

text \<open>A line yields two parts exactly when it holds one \<open>=\<close>.\<close>

lemma two_parts_count: "two_parts l \<longleftrightarrow> count_list l CHR ''='' = 1"
  by (simp add: two_parts_def length_split_on count_eq_strip)

lemma two_parts_split:
  "two_parts l \<longleftrightarrow> (\<exists>key val. split_on CHR ''='' (strip l) = [key, val])"
  by (auto simp add: two_parts_def length_Suc_conv numeral_2_eq_2)

text \<open>
  The loop over the lines: the entries are stored in the order of the lines, so a later
  line overrides an earlier one with the same key; the first line that does not unpack
  raises ValueError.
\<close>

lemma get_env_loop_result:
  "get_env_loop lines d =
     (if all_two_parts lines
      then Inr (d ++ map_of (rev (map env_entry lines))) else Inl ValueError)"
proof (induction lines arbitrary: d)
  case Nil
  then show ?case by (simp add: all_two_parts_def)
next
  case (Cons l lines)
  show ?case
  proof (cases "two_parts l")
    case True
    then obtain key val where kv: "split_on CHR ''='' (strip l) = [key, val]"
      using two_parts_split by blast
    have e: "env_entry l = (key, strip_quotes val)"
      by (simp add: env_entry_def kv)
    have "d(key \<mapsto> strip_quotes val) ++ m = d ++ ([key \<mapsto> strip_quotes val] ++ m)" for m
      by (simp add: map_add_assoc [symmetric])
    then show ?thesis
      using True by (simp add: kv e map_of_append Cons.IH all_two_parts_def)
  next
    case False
    then have "\<not> (\<exists>key val. split_on CHR ''='' (strip l) = [key, val])"
      using two_parts_split by blast
    then have "get_env_loop (l # lines) d = Inl ValueError"
      by (auto split: list.splits)
    then show ?thesis
      using False by (simp add: all_two_parts_def)
  qed
qed

text \<open>
  Splitting at the one separator gives the text before it and the text after it, and
  \<open>strip_with\<close> removes a run of matching characters at each end and no more.
\<close>

lemma split_on_single: "split_on sep s = [p] \<Longrightarrow> p = s \<and> sep \<notin> set s"
proof (induction s arbitrary: p)
  case Nil
  then show ?case by simp
next
  case (Cons c cs)
  show ?case
  proof (cases "c = sep")
    case True
    have "split_on sep (c # cs) = [] # split_on sep cs"
      using True by simp
    moreover have "split_on sep cs \<noteq> []"
      using length_split_on [of sep cs] by auto
    ultimately have False
      using Cons.prems by (cases "split_on sep cs") simp_all
    then show ?thesis ..
  next
    case False
    have "split_on sep cs \<noteq> []"
      using length_split_on [of sep cs] by auto
    then obtain q qs where q: "split_on sep cs = q # qs"
      by (cases "split_on sep cs") auto
    have "split_on sep (c # cs) = (c # q) # qs"
      using False q by simp
    then have "qs = []" "p = c # q"
      using Cons.prems by simp_all
    then show ?thesis
      using Cons.IH [of q] q False by simp
  qed
qed


lemma split_on_pair:
  "split_on sep s = [k, r] \<Longrightarrow> s = k @ [sep] @ r \<and> sep \<notin> set k \<and> sep \<notin> set r"
proof (induction s arbitrary: k)
  case Nil
  then show ?case by simp
next
  case (Cons c cs)
  show ?case
  proof (cases "c = sep")
    case True
    have "split_on sep (c # cs) = [] # split_on sep cs"
      using True by simp
    then have "k = []" "split_on sep cs = [r]"
      using Cons.prems by simp_all
    then show ?thesis
      using split_on_single [of sep cs r] True by simp
  next
    case False
    have "split_on sep cs \<noteq> []"
      using length_split_on [of sep cs] by auto
    then obtain q qs where q: "split_on sep cs = q # qs"
      by (cases "split_on sep cs") auto
    have "split_on sep (c # cs) = (c # q) # qs"
      using False q by simp
    then have "qs = [r]" "k = c # q"
      using Cons.prems by simp_all
    then show ?thesis
      using Cons.IH [of q] q False by simp
  qed
qed


lemma rev_dropWhile_rev: "rev (dropWhile p (rev t)) @ rev (takeWhile p (rev t)) = t"
  by (simp only: rev_append [symmetric] takeWhile_dropWhile_id rev_rev_ident)

lemma strip_with_decomp:
  "takeWhile p s @ strip_with p s @ rev (takeWhile p (rev (dropWhile p s))) = s"
  by (simp only: strip_with_def rev_dropWhile_rev takeWhile_dropWhile_id)

lemma hd_rev_dropWhile_rev:
  assumes "dropWhile p (rev t) \<noteq> []"
  shows "hd (rev (dropWhile p (rev t))) = hd t"
proof -
  have "rev (dropWhile p (rev t)) \<noteq> []"
    using assms by simp
  then have "hd (rev (dropWhile p (rev t)) @ rev (takeWhile p (rev t)))
               = hd (rev (dropWhile p (rev t)))"
    by (rule hd_append2)
  then show ?thesis
    by (simp only: rev_dropWhile_rev)
qed

lemma strip_with_ends:
  assumes "strip_with p s \<noteq> []"
  shows "\<not> p (hd (strip_with p s)) \<and> \<not> p (last (strip_with p s))"
proof -
  have u: "dropWhile p (rev (dropWhile p s)) \<noteq> []"
    using assms by (simp add: strip_with_def)
  then have l: "\<not> p (hd (dropWhile p (rev (dropWhile p s))))"
    by (rule hd_dropWhile)
  have la: "last (strip_with p s) = hd (dropWhile p (rev (dropWhile p s)))"
    using u by (simp add: strip_with_def last_rev)
  have t: "dropWhile p s \<noteq> []"
  proof
    assume "dropWhile p s = []"
    then have "dropWhile p (rev (dropWhile p s)) = []"
      by (simp only: rev.simps dropWhile.simps)
    with u show False ..
  qed
  then have ht: "\<not> p (hd (dropWhile p s))"
    by (rule hd_dropWhile)
  have "hd (strip_with p s) = hd (dropWhile p s)"
    unfolding strip_with_def using u by (rule hd_rev_dropWhile_rev)
  then show ?thesis
    using ht l la by simp
qed

lemma strip_quotes_spec: "quotes_stripped raw (strip_quotes raw)"
proof -
  let ?p = "\<lambda>c. c = CHR 0x22"
  let ?a = "takeWhile ?p raw"
  let ?b = "rev (takeWhile ?p (rev (dropWhile ?p raw)))"
  have "?a @ strip_with ?p raw @ ?b = raw"
    by (rule strip_with_decomp)
  then have 1: "raw = ?a @ strip_quotes raw @ ?b"
    unfolding strip_quotes_def by (rule sym)
  have 2: "set ?a \<subseteq> {CHR 0x22}"
    by (auto dest: set_takeWhileD)
  have 3: "set ?b \<subseteq> {CHR 0x22}"
    by (auto dest: set_takeWhileD)
  have 4: "strip_quotes raw = [] \<or>
           (hd (strip_quotes raw) \<noteq> CHR 0x22 \<and> last (strip_quotes raw) \<noteq> CHR 0x22)"
  proof (cases "strip_with ?p raw = []")
    case True
    then show ?thesis unfolding strip_quotes_def by (rule disjI1)
  next
    case False
    then have "\<not> ?p (hd (strip_with ?p raw)) \<and> \<not> ?p (last (strip_with ?p raw))"
      by (rule strip_with_ends)
    then show ?thesis unfolding strip_quotes_def by (rule disjI2)
  qed
  show ?thesis
    unfolding quotes_stripped_def
    by (rule exI [of _ ?a], rule exI [of _ ?b]) (intro conjI 1 2 3 4)
qed

lemma env_entry_spec:
  assumes "two_parts l"
  shows "entry_of_line l (env_entry l)"
proof -
  obtain key val where kv: "split_on CHR ''='' (strip l) = [key, val]"
    using assms two_parts_split by blast
  have e: "env_entry l = (key, strip_quotes val)"
    by (simp add: env_entry_def kv)
  have s: "strip l = key @ [CHR ''=''] @ val" "CHR ''='' \<notin> set key" "CHR ''='' \<notin> set val"
    using split_on_pair [OF kv] by blast+
  have "strip l = fst (key, strip_quotes val) @ ''='' @ val \<and>
        CHR ''='' \<notin> set (fst (key, strip_quotes val)) \<and> CHR ''='' \<notin> set val \<and>
        quotes_stripped val (snd (key, strip_quotes val))"
    using s(2,3) strip_quotes_spec [of val] by (simp add: s(1))
  then show ?thesis
    unfolding entry_of_line_def e by (rule exI)
qed

text \<open>
  C9. \<open>get_env\<close> reads \<^verbatim>\<open>.env\<close> when it exists and \<^verbatim>\<open>env\<close> otherwise. Without
  either file it returns the empty dict. With the file, it returns a dict exactly
  when every line splits on \<open>=\<close> into two parts, which is when every line holds one
  \<open>=\<close>; the dict then holds one entry per line, the last line with a key winning, and
  the entry of a line is its key, the text before the \<open>=\<close>, with its value, the text
  after the \<open>=\<close> without the surrounding double quotes. Any other file raises
  ValueError.
\<close>

theorem get_env_spec:
  "snd (get_env fs) =
     (case env_lines fs of
        None \<Rightarrow> Inr Map.empty
      | Some lines \<Rightarrow>
          if all_two_parts lines
          then Inr (map_of (rev (map env_entry lines))) else Inl ValueError) \<and>
   (env_lines fs = None \<longleftrightarrow> fs ''.env'' = None \<and> fs ''env'' = None) \<and>
   (all_two_parts lines \<longleftrightarrow> (\<forall>l \<in> set lines. count_list l CHR ''='' = 1)) \<and>
   (two_parts line \<longrightarrow> entry_of_line line (env_entry line))"
proof -
  have a: "snd (get_env fs) =
     (case env_lines fs of
        None \<Rightarrow> Inr Map.empty
      | Some lines \<Rightarrow>
          if all_two_parts lines
          then Inr (map_of (rev (map env_entry lines))) else Inl ValueError)"
    by (auto simp add: get_env_def Let_def env_lines_def get_env_loop_result split: option.splits)
  have b: "env_lines fs = None \<longleftrightarrow> fs ''.env'' = None \<and> fs ''env'' = None"
    by (auto simp add: env_lines_def)
  have c: "all_two_parts lines \<longleftrightarrow> (\<forall>l \<in> set lines. count_list l CHR ''='' = 1)"
    by (simp add: all_two_parts_def two_parts_count)
  have d: "two_parts line \<longrightarrow> entry_of_line line (env_entry line)"
    using env_entry_spec by blast
  show ?thesis
    using a b c d by blast
qed

theorem get_env_spec_witness:
  "snd (get_env example_env)
     = Inr (map_of [(''A '', '' c''), (''A '', '' b''), (''HF_TOKEN'', ''abc'')]) \<and>
   map_of [(''A '', '' c''), (''A '', '' b''), (''HF_TOKEN'', ''abc'')] ''HF_TOKEN''
     = Some ''abc'' \<and>
   map_of [(''A '', '' c''), (''A '', '' b''), (''HF_TOKEN'', ''abc'')] ''A '' = Some '' c'' \<and>
   entry_of_line (''HF_TOKEN='' @ [CHR 0x22] @ ''abc'' @ [CHR 0x22] @ ''\<newline>'')
     (''HF_TOKEN'', ''abc'') \<and>
   snd (get_env bad_env) = Inl ValueError \<and>
   snd (get_env Map.empty) = Inr Map.empty"
proof -
  let ?q = "''HF_TOKEN='' @ [CHR 0x22] @ ''abc'' @ [CHR 0x22] @ ''\<newline>''"
  have l: "env_lines example_env = Some [?q, ''A = b\<newline>'', ''A = c'']"
    by (simp add: env_lines_def example_env_def)
  have g: "all_two_parts [?q, ''A = b\<newline>'', ''A = c'']"
    using get_env_spec [of example_env] by simp
  have 1: "snd (get_env example_env)
             = Inr (map_of [(''A '', '' c''), (''A '', '' b''), (''HF_TOKEN'', ''abc'')])"
    using get_env_spec [of example_env] g
    by (simp add: l env_entry_def strip_def strip_with_def is_space_def strip_quotes_def)
  have t: "two_parts ?q"
    by (simp add: two_parts_count)
  have e: "env_entry ?q = (''HF_TOKEN'', ''abc'')"
    by (simp add: env_entry_def strip_def strip_with_def is_space_def strip_quotes_def)
  have 2: "entry_of_line ?q (''HF_TOKEN'', ''abc'')"
    using get_env_spec [of example_env "[]" ?q] t unfolding e by blast
  have 3: "snd (get_env bad_env) = Inl ValueError"
    using get_env_spec [of bad_env "[''A=b=c'']"]
    by (simp add: env_lines_def bad_env_def)
  have 4: "snd (get_env Map.empty) = Inr Map.empty"
    using get_env_spec [of Map.empty] by (simp add: env_lines_def)
  show ?thesis
    using 1 2 3 4 by simp
qed

section \<open>Properties of generate\<close>

lemma cat_last_Inr:
  "cat_last a b = Inr r \<Longrightarrow>
     length b = length a \<and> length r = length a \<and> (\<forall>i < length a. r ! i = a ! i @ b ! i)"
  by (auto simp add: cat_last_def split: if_splits)

lemma argmax_keepdim_Inr:
  "argmax_keepdim lg = Inr tok \<Longrightarrow>
     length tok = length lg \<and> (\<forall>i < length lg. tok ! i = [argmax (lg ! i)])"
  by (auto simp add: argmax_keepdim_def split: if_splits)

lemma item_Inr: "item tok = Inr t \<Longrightarrow> tok = [[t]]"
  by (auto simp add: item_def split: list.splits)

lemma eos_only_last_single: "eos_only_last e [a]"
  by (simp add: eos_only_last_def)

lemma eos_only_last_Cons: "int a \<noteq> e \<Longrightarrow> eos_only_last e t \<Longrightarrow> eos_only_last e (a # t)"
  by (auto simp add: eos_only_last_def nth_Cons split: nat.splits)

lemma row_grows_refl: "row_grows m n r r"
  by (simp add: row_grows_def eos_only_last_def)

lemma row_grows_stop: "row_grows m (Suc n) r (r @ [a])"
  by (simp add: row_grows_def eos_only_last_single)

lemma row_grows_step:
  assumes "row_grows m n (r @ [a]) r'" and "\<forall>e. eos_token_id m = Some e \<longrightarrow> int a \<noteq> e"
  shows "row_grows m (Suc n) r r'"
proof -
  from assms(1) obtain t where t: "r' = (r @ [a]) @ t" "length t \<le> n"
    "\<forall>e. eos_token_id m = Some e \<longrightarrow> eos_only_last e t"
    by (auto simp add: row_grows_def)
  have "r' = r @ (a # t)" using t(1) by simp
  moreover have "length (a # t) \<le> Suc n" using t(2) by simp
  moreover have "\<forall>e. eos_token_id m = Some e \<longrightarrow> eos_only_last e (a # t)"
    using t(3) assms(2) by (auto intro: eos_only_last_Cons)
  ultimately show ?thesis unfolding row_grows_def by blast
qed

lemma generate_loop_rows:
  "generate_loop m n nx pkv out = Inr (out', pkv') \<Longrightarrow>
     length out' = length out \<and> (\<forall>b < length out. row_grows m n (out ! b) (out' ! b))"
proof (induction n arbitrary: nx pkv out)
  case 0
  then show ?case by (simp add: row_grows_refl)
next
  case (Suc n)
  obtain lg past1 where f: "forward m nx pkv = (lg, past1)"
    by (cases "forward m nx pkv")
  from Suc.prems f obtain logits where lp: "last_position lg = Inr logits"
    by (auto split: sum.splits)
  from Suc.prems f lp obtain tok where tk: "argmax_keepdim logits = Inr tok"
    by (auto split: sum.splits)
  from Suc.prems f lp tk obtain out1 where ct: "cat_last out tok = Inr out1"
    by (auto split: sum.splits)
  note c = cat_last_Inr [OF ct]
  have tokrow: "\<forall>b < length out. \<exists>a. tok ! b = [a]"
    using argmax_keepdim_Inr [OF tk] c by auto
  show ?case
  proof (cases "eos_token_id m")
    case None
    with Suc.prems f lp tk ct have r: "generate_loop m n tok past1 out1 = Inr (out', pkv')"
      by simp
    note ih = Suc.IH [OF r]
    show ?thesis
    proof (intro conjI allI impI)
      show "length out' = length out" using ih c by simp
    next
      fix b assume b: "b < length out"
      then obtain a where a: "tok ! b = [a]" using tokrow by blast
      have "row_grows m n (out ! b @ [a]) (out' ! b)" using ih b c a by auto
      then show "row_grows m (Suc n) (out ! b) (out' ! b)"
        by (rule row_grows_step) (simp add: None)
    qed
  next
    case (Some e)
    from Suc.prems f lp tk ct Some obtain t where it: "item tok = Inr t"
      by (auto split: sum.splits)
    have tok: "tok = [[t]]" using it by (rule item_Inr)
    have len1: "length out = 1" using c tok by simp
    show ?thesis
    proof (cases "int t = e")
      case True
      with Suc.prems f lp tk ct Some it have "out' = out1" by simp
      then show ?thesis using c tok len1 by (auto simp add: row_grows_stop)
    next
      case False
      with Suc.prems f lp tk ct Some it
      have r: "generate_loop m n tok past1 out1 = Inr (out', pkv')" by simp
      note ih = Suc.IH [OF r]
      show ?thesis
      proof (intro conjI allI impI)
        show "length out' = length out" using ih c by simp
      next
        fix b assume b: "b < length out"
        then have b0: "b = 0" using len1 by simp
        have "row_grows m n (out ! b @ [t]) (out' ! b)" using ih b c tok b0 by auto
        then show "row_grows m (Suc n) (out ! b) (out' ! b)"
          by (rule row_grows_step) (simp add: Some False)
      qed
    qed
  qed
qed

text \<open>
  C7. When \<open>generate\<close> returns, for \<open>max_new_tokens\<close> not negative and a rectangular
  \<open>input_ids\<close>, the returned tensor has the batch size of the input and every row has at
  most \<open>max_new_tokens\<close> tokens; when the model has an end-of-sequence token, that token
  occurs in a returned row at the last position or not at all, so no token follows it.
\<close>

theorem generate_stops_at_eos:
  assumes "generate m input_ids past max_new = Inr (out, past')"
    and "is_tensor2 input_ids" and "0 \<le> max_new"
  shows "length out = length input_ids \<and>
         (\<forall>r \<in> set out. int (length r) \<le> max_new \<and>
            (\<forall>e. eos_token_id m = Some e \<longrightarrow> eos_only_last e r))"
proof -
  from assms(1) obtain out0 where
    l: "generate_loop m (nat max_new) input_ids past input_ids = Inr (out0, past')"
    and o: "out = map (drop (shape_last input_ids)) out0"
    by (auto simp add: generate_def Let_def split: sum.splits)
  note g = generate_loop_rows [OF l]
  have len: "length out = length input_ids" using o g by simp
  have "int (length r) \<le> max_new \<and> (\<forall>e. eos_token_id m = Some e \<longrightarrow> eos_only_last e r)"
    if "r \<in> set out" for r
  proof -
    from that obtain b where b: "b < length input_ids" "r = out ! b"
      using len by (auto simp add: in_set_conv_nth)
    then obtain t where t: "out0 ! b = input_ids ! b @ t" "length t \<le> nat max_new"
      "\<forall>e. eos_token_id m = Some e \<longrightarrow> eos_only_last e t"
      using g by (auto simp add: row_grows_def)
    have "length (input_ids ! b) = shape_last input_ids"
      using assms(2) b(1) by (simp add: is_tensor2_def)
    then have "r = t" using b o t(1) g by simp
    then show ?thesis using t(2,3) assms(3) by auto
  qed
  then show ?thesis using len by blast
qed

theorem generate_stops_at_eos_witness:
  "generate toy_model [[1, 2]] DynamicCache 5
     = Inr ([[3, 4]],
            \<lparr>key_cache = [[[[[1], [2], [3]]]], [[[[1], [2], [3]]]]],
               value_cache = [[[[[1], [2], [3]]]], [[[[1], [2], [3]]]]]\<rparr>) \<and>
   is_tensor2 [[1, 2]] \<and> (0::int) \<le> 5 \<and>
   int (length [3, 4 :: nat]) \<le> 5 \<and> eos_only_last 4 [3, 4]"
proof -
  have g: "generate toy_model [[1, 2]] DynamicCache 5
     = Inr ([[3, 4]],
            \<lparr>key_cache = [[[[[1], [2], [3]]]], [[[[1], [2], [3]]]]],
               value_cache = [[[[[1], [2], [3]]]], [[[[1], [2], [3]]]]]\<rparr>)"
    by code_simp
  have t: "is_tensor2 [[1, 2]]"
    by (simp add: is_tensor2_def shape_last_def)
  have n: "(0::int) \<le> 5"
    by simp
  show ?thesis
    using g t generate_stops_at_eos [OF g t n]
    by (simp add: toy_model_def)
qed

section \<open>generate, call by call\<close>

text \<open>\<open>argmax\<close> yields the first index of a maximal entry.\<close>

lemma argmax_from_spec:
  "bi < i \<Longrightarrow>
     (argmax_from bi bv i xs = bi \<and> (\<forall>x \<in> set xs. x \<le> bv)) \<or>
     (i \<le> argmax_from bi bv i xs \<and> argmax_from bi bv i xs < i + length xs \<and>
      bv < xs ! (argmax_from bi bv i xs - i) \<and>
      (\<forall>x \<in> set xs. x \<le> xs ! (argmax_from bi bv i xs - i)) \<and>
      (\<forall>k < argmax_from bi bv i xs - i. xs ! k < xs ! (argmax_from bi bv i xs - i)))"
proof (induction xs arbitrary: bi bv i)
  case Nil
  then show ?case by simp
next
  case (Cons x xs)
  show ?case
  proof (cases "bv < x")
    case True
    have "i < Suc i" by simp
    from Cons.IH [OF this, of x] show ?thesis
    proof
      assume a: "argmax_from i x (Suc i) xs = i \<and> (\<forall>y \<in> set xs. y \<le> x)"
      then show ?thesis using True by auto
    next
      assume a: "Suc i \<le> argmax_from i x (Suc i) xs \<and>
          argmax_from i x (Suc i) xs < Suc i + length xs \<and>
          x < xs ! (argmax_from i x (Suc i) xs - Suc i) \<and>
          (\<forall>y \<in> set xs. y \<le> xs ! (argmax_from i x (Suc i) xs - Suc i)) \<and>
          (\<forall>k < argmax_from i x (Suc i) xs - Suc i.
             xs ! k < xs ! (argmax_from i x (Suc i) xs - Suc i))"
      let ?r = "argmax_from i x (Suc i) xs"
      have d: "?r - i = Suc (?r - Suc i)" using a by arith
      have lt: "\<forall>k < ?r - i. (x # xs) ! k < (x # xs) ! (?r - i)"
        using a d by (auto simp add: nth_Cons split: nat.splits)
      have "i \<le> ?r \<and> ?r < i + length (x # xs) \<and> bv < (x # xs) ! (?r - i) \<and>
            (\<forall>y \<in> set (x # xs). y \<le> (x # xs) ! (?r - i))"
        using a d True by auto
      then show ?thesis using True lt by simp
    qed
  next
    case False
    have "bi < Suc i" using Cons.prems by simp
    from Cons.IH [OF this, of bv] show ?thesis
    proof
      assume a: "argmax_from bi bv (Suc i) xs = bi \<and> (\<forall>y \<in> set xs. y \<le> bv)"
      then show ?thesis using False by auto
    next
      assume a: "Suc i \<le> argmax_from bi bv (Suc i) xs \<and>
          argmax_from bi bv (Suc i) xs < Suc i + length xs \<and>
          bv < xs ! (argmax_from bi bv (Suc i) xs - Suc i) \<and>
          (\<forall>y \<in> set xs. y \<le> xs ! (argmax_from bi bv (Suc i) xs - Suc i)) \<and>
          (\<forall>k < argmax_from bi bv (Suc i) xs - Suc i.
             xs ! k < xs ! (argmax_from bi bv (Suc i) xs - Suc i))"
      let ?r = "argmax_from bi bv (Suc i) xs"
      have d: "?r - i = Suc (?r - Suc i)" using a by arith
      have xb: "x \<le> bv" using False by simp
      have lt: "\<forall>k < ?r - i. (x # xs) ! k < (x # xs) ! (?r - i)"
        using a d xb by (auto simp add: nth_Cons split: nat.splits)
      have "i \<le> ?r \<and> ?r < i + length (x # xs) \<and> bv < (x # xs) ! (?r - i) \<and>
            (\<forall>y \<in> set (x # xs). y \<le> (x # xs) ! (?r - i))"
        using a d xb by auto
      then show ?thesis using False lt by simp
    qed
  qed
qed

lemma argmax_is_first_maximum:
  assumes "xs \<noteq> []"
  shows "argmax xs < length xs \<and> (\<forall>x \<in> set xs. x \<le> xs ! argmax xs) \<and>
         (\<forall>k < argmax xs. xs ! k < xs ! argmax xs)"
proof -
  obtain x rest where xs: "xs = x # rest"
    using assms by (cases xs) auto
  have "(0::nat) < 1" by simp
  from argmax_from_spec [OF this, of x rest] show ?thesis
  proof
    assume "argmax_from 0 x 1 rest = 0 \<and> (\<forall>y \<in> set rest. y \<le> x)"
    then show ?thesis by (simp add: xs argmax_def)
  next
    assume a: "1 \<le> argmax_from 0 x 1 rest \<and> argmax_from 0 x 1 rest < 1 + length rest \<and>
        x < rest ! (argmax_from 0 x 1 rest - 1) \<and>
        (\<forall>y \<in> set rest. y \<le> rest ! (argmax_from 0 x 1 rest - 1)) \<and>
        (\<forall>k < argmax_from 0 x 1 rest - 1. rest ! k < rest ! (argmax_from 0 x 1 rest - 1))"
    let ?r = "argmax_from 0 x 1 rest"
    obtain q where q: "?r = Suc q" using a by (cases ?r) auto
    have "\<forall>k < ?r. (x # rest) ! k < (x # rest) ! ?r"
      using a q by (auto simp add: nth_Cons split: nat.splits)
    moreover have "?r < length (x # rest) \<and> (\<forall>y \<in> set (x # rest). y \<le> (x # rest) ! ?r)"
      using a q by auto
    ultimately show ?thesis by (simp add: xs argmax_def)
  qed
qed

text \<open>The observed model returns what the model returns and adds the call to its list.\<close>

lemma forward_logged:
  "forward m nx c = (lg, c') \<Longrightarrow> forward (logged m) nx (c, cs) = (lg, (c', cs @ [(nx, c, lg, c')]))"
  by (simp add: logged_def)

lemma eos_logged: "eos_token_id (logged m) = eos_token_id m"
  by (simp add: logged_def)

text \<open>Observing does not change the result of the loop.\<close>

lemma loop_erase:
  "map_sum (\<lambda>e. e) (\<lambda>(o', c', cs'). (o', c')) (generate_loop (logged m) n nx (c, cs) out)
     = generate_loop m n nx c out"
proof (induction n arbitrary: nx c cs out)
  case 0
  then show ?case by simp
next
  case (Suc n)
  obtain lg c1 where f: "forward m nx c = (lg, c1)"
    by (cases "forward m nx c")
  show ?case
    by (simp add: f forward_logged [OF f] eos_logged Suc.IH
             split: sum.splits option.splits)
qed


lemma chained_append:
  "chained m nx c (xs @ ys) \<longleftrightarrow>
     chained m nx c xs \<and>
     chained m (if xs = [] then nx else produced (last xs)) (end_cache c xs) ys"
  by (induction xs arbitrary: nx c) auto

text \<open>
  The calls the loop adds are chained from its input and its cache, there is one per
  iteration, and every row of the output grows by one token per call: the first maximal
  entry of the row's last-position logits.
\<close>

lemma loop_logged:
  "generate_loop (logged m) n nx (c, cs) out = Inr (out', (c', cs')) \<Longrightarrow>
     \<exists>new. cs' = cs @ new \<and> length new \<le> n \<and> (0 < n \<longrightarrow> new \<noteq> []) \<and>
           chained m nx c new \<and> c' = end_cache c new \<and> length out' = length out \<and>
           (\<forall>cl \<in> set new. length (call_logits cl) = length out) \<and>
           (\<forall>b < length out.
              out' ! b = out ! b @ map (\<lambda>cl. argmax (last (call_logits cl ! b))) new)"
proof (induction n arbitrary: nx c cs out)
  case 0
  then show ?case by simp
next
  case (Suc n)
  obtain lg c1 where f: "forward m nx c = (lg, c1)"
    by (cases "forward m nx c")
  let ?cl = "(nx, c, lg, c1)"
  note fl = forward_logged [OF f, of cs]
  from Suc.prems fl obtain logits where lp: "last_position lg = Inr logits"
    by (auto split: sum.splits)
  from Suc.prems fl lp obtain tok where tk: "argmax_keepdim logits = Inr tok"
    by (auto split: sum.splits)
  from Suc.prems fl lp tk obtain out1 where ct: "cat_last out tok = Inr out1"
    by (auto split: sum.splits)
  note c = cat_last_Inr [OF ct]
  note a = argmax_keepdim_Inr [OF tk]
  have lg: "logits = map last lg"
    using lp by (auto simp add: last_position_def split: if_splits)
  have len: "length lg = length out"
    using a c lg by simp
  have tokp: "tok = produced ?cl"
    using a lg by (auto simp add: produced_def call_logits_def intro: nth_equalityI)
  have row: "out1 ! b = out ! b @ [argmax (last (lg ! b))]" if "b < length out" for b
    using that a c lg len by simp
  have ch1: "chained m nx c [?cl]"
    by (simp add: call_input_def call_past_def call_logits_def call_out_def f)
  consider (stop) "out' = out1" "c' = c1" "cs' = cs @ [?cl]"
    | (go) "generate_loop (logged m) n tok (c1, cs @ [?cl]) out1 = Inr (out', (c', cs'))"
  proof (cases "eos_token_id m")
    case None
    then have "generate_loop (logged m) n tok (c1, cs @ [?cl]) out1 = Inr (out', (c', cs'))"
      using Suc.prems by (simp add: fl lp tk ct eos_logged)
    then show ?thesis by (rule that(2))
  next
    case (Some e)
    then obtain t where it: "item tok = Inr t"
      using Suc.prems by (auto simp add: fl lp tk ct eos_logged split: sum.splits)
    show ?thesis
    proof (cases "int t = e")
      case True
      then have "generate_loop (logged m) (Suc n) nx (c, cs) out = Inr (out1, (c1, cs @ [?cl]))"
        using Some it by (simp add: fl lp tk ct eos_logged)
      with Suc.prems have "out' = out1" "c' = c1" "cs' = cs @ [?cl]"
        by auto
      then show ?thesis by (rule that(1))
    next
      case False
      then have "generate_loop (logged m) n tok (c1, cs @ [?cl]) out1 = Inr (out', (c', cs'))"
        using Suc.prems Some it by (simp add: fl lp tk ct eos_logged)
      then show ?thesis by (rule that(2))
    qed
  qed
  then show ?case
  proof cases
    case stop
    have "cs' = cs @ [?cl] \<and> length [?cl] \<le> Suc n \<and> (0 < Suc n \<longrightarrow> [?cl] \<noteq> []) \<and>
          chained m nx c [?cl] \<and> c' = end_cache c [?cl] \<and> length out' = length out \<and>
          (\<forall>cl \<in> set [?cl]. length (call_logits cl) = length out) \<and>
          (\<forall>b < length out.
             out' ! b = out ! b @ map (\<lambda>cl. argmax (last (call_logits cl ! b))) [?cl])"
      using stop ch1 c len row by (simp add: call_out_def call_logits_def)
    then show ?thesis by blast
  next
    case go
    from Suc.IH [OF go] obtain new where n:
      "cs' = (cs @ [?cl]) @ new" "length new \<le> n" "chained m tok c1 new"
      "c' = end_cache c1 new" "length out' = length out1"
      "\<forall>cl \<in> set new. length (call_logits cl) = length out1"
      "\<forall>b < length out1.
         out' ! b = out1 ! b @ map (\<lambda>cl. argmax (last (call_logits cl ! b))) new"
      by blast
    have "cs' = cs @ (?cl # new) \<and> length (?cl # new) \<le> Suc n \<and>
          (0 < Suc n \<longrightarrow> ?cl # new \<noteq> []) \<and>
          chained m nx c (?cl # new) \<and> c' = end_cache c (?cl # new) \<and>
          length out' = length out \<and>
          (\<forall>cl \<in> set (?cl # new). length (call_logits cl) = length out) \<and>
          (\<forall>b < length out.
             out' ! b = out ! b @ map (\<lambda>cl. argmax (last (call_logits cl ! b))) (?cl # new))"
      using n ch1 c len row tokp
      by (simp add: call_out_def call_logits_def call_input_def call_past_def)
    then show ?thesis by blast
  qed
qed


lemma chained_first:
  "chained m nx c new \<Longrightarrow> new \<noteq> [] \<Longrightarrow> call_input (new ! 0) = nx \<and> call_past (new ! 0) = c"
  by (cases new) simp_all

lemma chained_next:
  "chained m nx c new \<Longrightarrow> Suc j < length new \<Longrightarrow>
     call_input (new ! Suc j) = produced (new ! j) \<and> call_past (new ! Suc j) = call_out (new ! j)"
proof (induction new arbitrary: nx c j)
  case Nil
  then show ?case by simp
next
  case (Cons cl rest)
  show ?case
  proof (cases j)
    case 0
    then show ?thesis
      using Cons.prems chained_first [of m "produced cl" "call_out cl" rest] by auto
  next
    case (Suc i)
    then show ?thesis
      using Cons.prems Cons.IH [of "produced cl" "call_out cl" i] by simp
  qed
qed

lemma chained_forward:
  "chained m nx c new \<Longrightarrow> j < length new \<Longrightarrow>
     forward m (call_input (new ! j)) (call_past (new ! j))
       = (call_logits (new ! j), call_out (new ! j))"
proof (induction new arbitrary: nx c j)
  case Nil
  then show ?case by simp
next
  case (Cons cl rest)
  then show ?case by (cases j) auto
qed

lemma end_cache_last: "new \<noteq> [] \<Longrightarrow> end_cache c new = call_out (last new)"
  by (induction new arbitrary: c) auto

text \<open>
  C2, as the code has it. Let \<open>generate\<close> return on the observed model, for a rectangular
  \<open>input_ids\<close> and \<open>max_new_tokens\<close> at least 1. Then it returns the same on the model
  itself, and it has called the model at least once and at most \<open>max_new_tokens\<close> times.
  The first call is fed the whole of \<open>input_ids\<close> with the cache given; every later call
  is fed only the tokens the call before it produced, one per row, with the cache that
  call returned. Every call appends one token to every row, the argmax of the row's
  logits at the last position, and the returned tensor holds exactly these tokens and
  none of the positions of \<open>input_ids\<close>.
\<close>

theorem generate_token_by_token:
  assumes "generate (logged m) input_ids (c, []) max_new_tokens = Inr (out, c', calls)"
    and "is_tensor2 input_ids" and "1 \<le> max_new_tokens"
  shows "generate m input_ids c max_new_tokens = Inr (out, c') \<and>
         calls \<noteq> [] \<and> int (length calls) \<le> max_new_tokens \<and>
         call_input (calls ! 0) = input_ids \<and> call_past (calls ! 0) = c \<and>
         (\<forall>j. Suc j < length calls \<longrightarrow>
            call_input (calls ! Suc j) = map (\<lambda>r. [r ! j]) out \<and>
            call_past (calls ! Suc j) = call_out (calls ! j)) \<and>
         (\<forall>j < length calls.
            forward m (call_input (calls ! j)) (call_past (calls ! j))
              = (call_logits (calls ! j), call_out (calls ! j))) \<and>
         length out = length input_ids \<and>
         (\<forall>r \<in> set out. length r = length calls) \<and>
         (\<forall>j < length calls. \<forall>b < length out.
            out ! b ! j = argmax (last (call_logits (calls ! j) ! b))) \<and>
         c' = call_out (last calls)"
proof -
  let ?n = "nat max_new_tokens"
  from assms(1) obtain out0 where
    l: "generate_loop (logged m) ?n input_ids (c, []) input_ids = Inr (out0, (c', calls))"
    and o: "out = map (drop (shape_last input_ids)) out0"
    by (auto simp add: generate_def Let_def split: sum.splits)
  from loop_logged [OF l] assms(3) have
    ne: "calls \<noteq> []" and le: "length calls \<le> ?n" and ch: "chained m input_ids c calls"
    and ec: "c' = end_cache c calls" and len0: "length out0 = length input_ids"
    and lg: "\<forall>cl \<in> set calls. length (call_logits cl) = length input_ids"
    and rows: "\<forall>b < length input_ids.
       out0 ! b = input_ids ! b @ map (\<lambda>cl. argmax (last (call_logits cl ! b))) calls"
    by auto
  have len: "length out = length input_ids"
    using o len0 by simp
  have row: "out ! b = map (\<lambda>cl. argmax (last (call_logits cl ! b))) calls"
    if "b < length input_ids" for b
  proof -
    have "length (input_ids ! b) = shape_last input_ids"
      using assms(2) that by (simp add: is_tensor2_def)
    then show ?thesis using o rows len0 that by simp
  qed
  have 1: "generate m input_ids c max_new_tokens = Inr (out, c')"
  proof -
    have "generate_loop m ?n input_ids c input_ids = Inr (out0, c')"
      using loop_erase [of m ?n input_ids c "[]" input_ids] l by simp
    then show ?thesis by (simp add: generate_def Let_def o)
  qed
  have 2: "int (length calls) \<le> max_new_tokens"
    using le assms(3) by simp
  have 3: "call_input (calls ! 0) = input_ids \<and> call_past (calls ! 0) = c"
    using ch ne by (rule chained_first)
  have 4: "call_input (calls ! Suc j) = map (\<lambda>r. [r ! j]) out \<and>
           call_past (calls ! Suc j) = call_out (calls ! j)" if "Suc j < length calls" for j
  proof -
    have j: "j < length calls" using that by simp
    have n: "call_input (calls ! Suc j) = produced (calls ! j)"
      "call_past (calls ! Suc j) = call_out (calls ! j)"
      using chained_next [OF ch that] by simp_all
    have ll: "length (call_logits (calls ! j)) = length input_ids"
      using lg j by simp
    have "produced (calls ! j) = map (\<lambda>r. [r ! j]) out"
      by (rule nth_equalityI) (simp_all add: produced_def ll len row j)
    then show ?thesis using n by simp
  qed
  have 5: "forward m (call_input (calls ! j)) (call_past (calls ! j))
             = (call_logits (calls ! j), call_out (calls ! j))" if "j < length calls" for j
    using ch that by (rule chained_forward)
  have 6: "\<forall>r \<in> set out. length r = length calls"
    using row len by (auto simp add: in_set_conv_nth)
  have 7: "out ! b ! j = argmax (last (call_logits (calls ! j) ! b))"
    if "j < length calls" "b < length out" for j b
    using that row len by simp
  have 8: "c' = call_out (last calls)"
    using ec ne by (simp add: end_cache_last)
  show ?thesis
    using 1 ne 2 3 4 5 len 6 7 8 by blast
qed

theorem generate_token_by_token_witness:
  "fed_inputs (generate (logged toy_model) [[1, 2]] (DynamicCache, []) 5) = [[[1, 2]], [[3]]] \<and>
   is_tensor2 [[1, 2]] \<and> (1::int) \<le> 5 \<and>
   generate toy_model [[1, 2]] DynamicCache 5
     = Inr ([[3, 4]],
            \<lparr>key_cache = [[[[[1], [2], [3]]]], [[[[1], [2], [3]]]]],
               value_cache = [[[[[1], [2], [3]]]], [[[[1], [2], [3]]]]]\<rparr>)"
proof -
  let ?c0 = "\<lparr>key_cache = [], value_cache = []\<rparr> :: nat dyn_cache"
  let ?c1 = "\<lparr>key_cache = [[[[[1], [2]]]], [[[[1], [2]]]]],
              value_cache = [[[[[1], [2]]]], [[[[1], [2]]]]]\<rparr> :: nat dyn_cache"
  let ?c2 = "\<lparr>key_cache = [[[[[1], [2], [3]]]], [[[[1], [2], [3]]]]],
              value_cache = [[[[[1], [2], [3]]]], [[[[1], [2], [3]]]]]\<rparr> :: nat dyn_cache"
  have g: "generate (logged toy_model) [[1, 2]] (DynamicCache, []) 5
     = Inr ([[3, 4]], ?c2,
            [([[1, 2]], ?c0, [[[0, 0, 1, 0, 0], [0, 0, 0, 1, 0]]], ?c1),
             ([[3]], ?c1, [[[0, 0, 0, 0, 1]]], ?c2)])"
    by code_simp
  have t: "is_tensor2 [[1, 2]]"
    by (simp add: is_tensor2_def shape_last_def)
  have n: "(1::int) \<le> 5"
    by simp
  have f: "fed_inputs (generate (logged toy_model) [[1, 2]] (DynamicCache, []) 5)
             = [[[1, 2]], [[3]]]"
    unfolding g by (simp add: fed_inputs_def)
  show ?thesis
    using f t generate_token_by_token [OF g t n] by simp
qed

text \<open>
  Read for every iteration, the statement fails at the first one: with a prompt of two tokens
  and one new token asked for, the only call of the model is fed the two tokens of the
  prompt, neither of which the model produced; the token produced is 3.
\<close>

theorem generate_first_call_counterexample:
  "fed_inputs (generate (logged toy_model) [[1, 2]] (DynamicCache, []) 1) = [[[1, 2]]] \<and>
   generate toy_model [[1, 2]] DynamicCache 1
     = Inr ([[3]],
            \<lparr>key_cache = [[[[[1], [2]]]], [[[[1], [2]]]]],
               value_cache = [[[[[1], [2]]]], [[[[1], [2]]]]]\<rparr>)"
proof -
  have "generate (logged toy_model) [[1, 2]] (DynamicCache, []) 1
     = Inr ([[3]],
            \<lparr>key_cache = [[[[[1], [2]]]], [[[[1], [2]]]]],
               value_cache = [[[[[1], [2]]]], [[[[1], [2]]]]]\<rparr>,
            [([[1, 2]], \<lparr>key_cache = [], value_cache = []\<rparr>,
              [[[0, 0, 1, 0, 0], [0, 0, 0, 1, 0]]],
              \<lparr>key_cache = [[[[[1], [2]]]], [[[[1], [2]]]]],
                 value_cache = [[[[[1], [2]]]], [[[[1], [2]]]]]\<rparr>)])"
    by code_simp
  moreover have "generate toy_model [[1, 2]] DynamicCache 1
     = Inr ([[3]],
            \<lparr>key_cache = [[[[[1], [2]]]], [[[[1], [2]]]]],
               value_cache = [[[[[1], [2]]]], [[[[1], [2]]]]]\<rparr>)"
    by code_simp
  ultimately show ?thesis
    by (simp add: fed_inputs_def)
qed

section \<open>The cache across the cells\<close>

text \<open>Extents under slicing, \<open>clean_up\<close> and the calls of the model.\<close>

lemma seq_extent_shape: "seq_extent n t \<Longrightarrow> shape_seq t = n"
  by (auto simp add: seq_extent_def shape_seq_def seq_len_is_def split: list.splits)

lemma seq_extent_slice:
  "seq_extent n' t \<Longrightarrow> n \<le> n' \<Longrightarrow> seq_extent n (slice_seq (int n) t)"
  by (auto simp add: seq_extent_def slice_seq_def slice_to_def seq_len_is_def)

lemma cache_extent_wf: "cache_extent L n c \<Longrightarrow> cache_wf c"
  by (simp add: cache_extent_def cache_wf_def)

lemma cache_extent_truncated:
  "cache_extent L n' c \<Longrightarrow> n \<le> n' \<Longrightarrow> cache_extent L n (truncated (int n) c)"
  by (auto simp add: cache_extent_def truncated_def seq_extent_slice)

lemma clean_up_extent:
  assumes "cache_extent L n' c" and "n \<le> n'"
  shows "clean_up c (int n) = (truncated (int n) c, None) \<and> cache_extent L n (truncated (int n) c)"
  using assms clean_up_wf [OF cache_extent_wf [OF assms(1)]] cache_extent_truncated by blast

lemma get_kv_cache_extent_aux:
  "kv_appends L m \<Longrightarrow> cache_extent L (length (tok prompt)) (get_kv_cache m tok prompt)"
  by (simp add: kv_appends_def get_kv_cache_def Let_def)
     (metis shape_last_def list.simps(5))

lemma kv_appends_step:
  "kv_appends L m \<Longrightarrow> cache_extent L n c \<Longrightarrow>
     cache_extent L (n + shape_last ids) (snd (forward m ids c))"
  by (simp add: kv_appends_def)

lemma generate_loop_extent:
  "kv_appends L m \<Longrightarrow> cache_extent L n c \<Longrightarrow> generate_loop m k nx c out = Inr (out', c') \<Longrightarrow>
     \<exists>n' \<ge> n. cache_extent L n' c'"
proof (induction k arbitrary: nx c out n)
  case 0
  then show ?case by auto
next
  case (Suc k)
  obtain lg c1 where f: "forward m nx c = (lg, c1)"
    by (cases "forward m nx c")
  have e1: "cache_extent L (n + shape_last nx) c1"
    using kv_appends_step [OF Suc.prems(1,2), of nx] f by simp
  consider (stop) "c' = c1"
    | (go) tok out1 where "generate_loop m k tok c1 out1 = Inr (out', c')"
    using Suc.prems(3) f
    by (auto split: sum.splits option.splits if_splits)
  then show ?case
  proof cases
    case stop
    then show ?thesis using e1 by (auto intro: exI [of _ "n + shape_last nx"])
  next
    case go
    from Suc.IH [OF Suc.prems(1) e1 go] obtain n' where
      "n + shape_last nx \<le> n'" "cache_extent L n' c'"
      by blast
    then have "n \<le> n' \<and> cache_extent L n' c'"
      by simp
    then show ?thesis by blast
  qed
qed

lemma generate_extent:
  assumes "kv_appends L m" and "cache_extent L n c" and "generate m ids c k = Inr (out, c')"
  shows "\<exists>n' \<ge> n. cache_extent L n' c'"
proof -
  from assms(3) obtain out0 where
    "generate_loop m (nat k) ids c ids = Inr (out0, c')"
    by (auto simp add: generate_def Let_def split: sum.splits)
  with assms(1,2) show ?thesis by (rule generate_loop_extent)
qed

text \<open>The small model keeps the promise of the library, with two layers.\<close>

lemma toy_positions_length: "length (toy_positions ids) = shape_last ids"
  by (simp add: toy_positions_def shape_last_def split: list.splits)

lemma toy_contract: "kv_appends 2 toy_model"
proof -
  have a: "cache_extent 2 (shape_last ids) (snd (forward toy_model ids DynamicCache))" for ids
    by (simp add: toy_model_def toy_forward_def DynamicCache_def cache_extent_def
                  seq_extent_def seq_len_is_def toy_positions_length)
  have b: "cache_extent 2 (n + shape_last ids) (snd (forward toy_model ids c))"
    if "cache_extent 2 n c" for ids n and c :: "nat dyn_cache"
  proof -
    have ne: "key_cache c \<noteq> []"
      using that by (auto simp add: cache_extent_def)
    have s: "seq_extent (n + shape_last ids) (map (map (\<lambda>h. h @ toy_positions ids)) t)"
      if "seq_extent n t" for t :: "nat tensor4"
      using that by (auto simp add: seq_extent_def seq_len_is_def toy_positions_length)
    show ?thesis
      using that ne s by (auto simp add: toy_model_def toy_forward_def cache_extent_def)
  qed
  show ?thesis
    unfolding kv_appends_def using a b by simp
qed

text \<open>
  C5. For a model of \<open>L\<close> layers that keeps the promise \<open>kv_appends\<close> of the library,
  \<open>get_kv_cache\<close> returns the cache that one call of the model on the whole tokenized
  prompt leaves from an empty \<^verbatim>\<open>DynamicCache\<close>: \<open>L\<close> key and \<open>L\<close> value tensors, each
  with as many sequence positions as the tokenizer produced tokens for the prompt;
  this number is what the notebook reads as \<open>origin_len\<close>.
\<close>

theorem get_kv_cache_layers:
  assumes "kv_appends L m"
  shows "get_kv_cache m tok prompt = snd (forward m [tok prompt] DynamicCache) \<and>
         length (key_cache (get_kv_cache m tok prompt)) = L \<and>
         length (value_cache (get_kv_cache m tok prompt)) = L \<and>
         layers_exactly (length (tok prompt)) (get_kv_cache m tok prompt) \<and>
         cache_extent L (length (tok prompt)) (get_kv_cache m tok prompt) \<and>
         shape_seq (key_cache (get_kv_cache m tok prompt) ! 0) = length (tok prompt)"
proof -
  let ?c = "get_kv_cache m tok prompt"
  have e: "cache_extent L (length (tok prompt)) ?c"
    using assms by (rule get_kv_cache_extent_aux)
  have "0 < L" using assms by (simp add: kv_appends_def)
  then have "seq_extent (length (tok prompt)) (key_cache ?c ! 0)"
    using e by (simp add: cache_extent_def)
  then have s: "shape_seq (key_cache ?c ! 0) = length (tok prompt)"
    by (rule seq_extent_shape)
  have l: "layers_exactly (length (tok prompt)) ?c"
    using e by (auto simp add: cache_extent_def layers_exactly_def seq_extent_def)
  show ?thesis
    using e s l by (simp add: get_kv_cache_def Let_def cache_extent_def)
qed

theorem get_kv_cache_layers_witness:
  "kv_appends 2 toy_model \<and>
   get_kv_cache toy_model toy_tokenizer ''abc''
     = \<lparr>key_cache = [[[[[97], [98], [99]]]], [[[[97], [98], [99]]]]],
        value_cache = [[[[[97], [98], [99]]]], [[[[97], [98], [99]]]]]\<rparr> \<and>
   cache_extent 2 (length ''abc'') (get_kv_cache toy_model toy_tokenizer ''abc'')"
proof -
  have g: "get_kv_cache toy_model toy_tokenizer ''abc''
     = \<lparr>key_cache = [[[[[97], [98], [99]]]], [[[[97], [98], [99]]]]],
        value_cache = [[[[[97], [98], [99]]]], [[[[97], [98], [99]]]]]\<rparr>"
    by code_simp
  have "cache_extent 2 (length (toy_tokenizer ''abc''))
          (get_kv_cache toy_model toy_tokenizer ''abc'')"
    using get_kv_cache_layers [OF toy_contract, of toy_tokenizer "''abc''"] by blast
  moreover have "length (toy_tokenizer ''abc'') = length ''abc''"
    by (simp add: toy_tokenizer_def)
  ultimately have "cache_extent 2 (length ''abc'')
          (get_kv_cache toy_model toy_tokenizer ''abc'')"
    by (simp only:)
  then show ?thesis
    using toy_contract g by blast
qed

section \<open>The calls of a run\<close>

lemma projections_append:
  "paths_tested (a @ b) = paths_tested a @ paths_tested b"
  "texts_tokenized (a @ b) = texts_tokenized a @ texts_tokenized b"
  "prompts_cached (a @ b) = prompts_cached a @ prompts_cached b"
  "caches_cleaned (a @ b) = caches_cleaned a @ caches_cleaned b"
  "generate_calls (a @ b) = generate_calls a @ generate_calls b"
  by (simp_all add: paths_tested_def texts_tokenized_def prompts_cached_def
                    caches_cleaned_def generate_calls_def)

lemma projections_Cons:
  "paths_tested (e # evs) = (case e of PathExists p \<Rightarrow> [p] | _ \<Rightarrow> []) @ paths_tested evs"
  "texts_tokenized (e # evs) = (case e of Tokenize s \<Rightarrow> [s] | _ \<Rightarrow> []) @ texts_tokenized evs"
  "prompts_cached (e # evs) = (case e of GetKvCache s \<Rightarrow> [s] | _ \<Rightarrow> []) @ prompts_cached evs"
  "caches_cleaned (e # evs) = (case e of CleanUp c \<Rightarrow> [c] | _ \<Rightarrow> []) @ caches_cleaned evs"
  "generate_calls (e # evs) = (case e of Generate i c \<Rightarrow> [(i, c)] | _ \<Rightarrow> []) @ generate_calls evs"
  by (simp_all add: paths_tested_def texts_tokenized_def prompts_cached_def
                    caches_cleaned_def generate_calls_def)

lemma projections_Nil:
  "paths_tested [] = []" "texts_tokenized [] = []" "prompts_cached [] = []"
  "caches_cleaned [] = []" "generate_calls [] = []"
  by (simp_all add: paths_tested_def texts_tokenized_def prompts_cached_def
                    caches_cleaned_def generate_calls_def)

lemma document_cell_result:
  assumes "kv_appends L (model k)" and "files k ''document.txt'' = Some lines"
  shows "document_cell k =
           ([PathExists ''document.txt'', GetKvCache (system_prompt (concat lines)),
             Tokenize (system_prompt (concat lines))],
            Inr (get_kv_cache (model k) (tokenizer k) (system_prompt (concat lines)),
                 length (tokenizer k (system_prompt (concat lines)))))"
proof -
  let ?p = "system_prompt (concat lines)"
  let ?c = "get_kv_cache (model k) (tokenizer k) ?p"
  have e: "cache_extent L (length (tokenizer k ?p)) ?c"
    using assms(1) by (rule get_kv_cache_extent_aux)
  have "0 < L" using assms(1) by (simp add: kv_appends_def)
  then obtain t ts where ts: "key_cache ?c = t # ts"
    using e by (cases "key_cache ?c") (auto simp add: cache_extent_def)
  have "seq_extent (length (tokenizer k ?p)) t"
    using e ts by (simp add: cache_extent_def)
  then have "shape_seq t = length (tokenizer k ?p)"
    by (rule seq_extent_shape)
  then show ?thesis
    by (simp add: document_cell_def assms(2) Let_def ts)
qed

lemma query_cell_events:
  assumes "kv_appends L (model k)" and "cache_extent L n' c" and "n \<le> n'"
  shows "caches_cleaned (fst (query_cell k q (c, n))) = [truncated (int n) c] \<and>
         cache_extent L n (truncated (int n) c) \<and>
         map snd (generate_calls (fst (query_cell k q (c, n))))
           = (if device k = None then [] else [truncated (int n) c]) \<and>
         map fst (generate_calls (fst (query_cell k q (c, n))))
           = (if device k = None then [] else [[tokenizer k (q @ ''\<newline>'')]]) \<and>
         prompts_cached (fst (query_cell k q (c, n))) = [] \<and>
         paths_tested (fst (query_cell k q (c, n))) = [] \<and>
         texts_tokenized (fst (query_cell k q (c, n))) = [q @ ''\<newline>''] \<and>
         (device k = None \<longrightarrow> snd (query_cell k q (c, n)) = Inl NameError) \<and>
         (\<forall>g a. snd (query_cell k q (c, n)) = Inr (g, a) \<longrightarrow>
            snd g = n \<and> (\<exists>n'' \<ge> n. cache_extent L n'' (fst g)))"
proof -
  note cu = clean_up_extent [OF assms(2,3)]
  show ?thesis
  proof (cases "device k")
    case None
    then show ?thesis
      using cu
      by (simp add: query_cell_def Let_def caches_cleaned_def generate_calls_def
                    prompts_cached_def paths_tested_def texts_tokenized_def)
  next
    case (Some d)
    let ?c1 = "truncated (int n) c"
    let ?ids = "[tokenizer k (q @ ''\<newline>'')]"
    have ev: "fst (query_cell k q (c, n))
                = [CleanUp ?c1, Tokenize (q @ ''\<newline>''), Generate ?ids ?c1]"
      using cu Some by (simp add: query_cell_def Let_def)
    have r: "snd g = n \<and> (\<exists>n'' \<ge> n. cache_extent L n'' (fst g))"
      if "snd (query_cell k q (c, n)) = Inr (g, a)" for g a
    proof -
      from that cu Some obtain gen_ids cache2 where
        g: "generate (model k) ?ids ?c1 50 = Inr (gen_ids, cache2)" and gg: "g = (cache2, n)"
        by (auto simp add: query_cell_def Let_def split: sum.splits list.splits)
      have "\<exists>n'' \<ge> n. cache_extent L n'' cache2"
        using assms(1) _ g by (rule generate_extent) (simp add: cu)
      then show ?thesis using gg by simp
    qed
    show ?thesis
      using cu Some r
      by (simp add: ev caches_cleaned_def generate_calls_def
                    prompts_cached_def paths_tested_def texts_tokenized_def)
  qed
qed

lemma query_cell_no_paths: "paths_tested (fst (query_cell k q g)) = []"
  by (cases g)
     (auto simp add: query_cell_def Let_def projections_Cons projections_Nil
           split: prod.splits option.splits)

lemma query_cell_no_prompts: "prompts_cached (fst (query_cell k q g)) = []"
  by (cases g)
     (auto simp add: query_cell_def Let_def projections_Cons projections_Nil
           split: prod.splits option.splits)

lemma query_cell_no_promptsD: "query_cell k q g = (ev, r) \<Longrightarrow> prompts_cached ev = []"
  using query_cell_no_prompts [of k q g] by simp

text \<open>
  C1, at the notebook as it is written. In a kernel where the name \<^verbatim>\<open>device\<close> is
  unbound, which is every kernel that has run only the cells of the notebook, the run
  builds the cache once, calls \<open>clean_up\<close> and the tokenizer on the first question, and
  ends with NameError where the first query cell evaluates \<^verbatim>\<open>device\<close>: \<open>generate\<close> is
  not called.
\<close>

theorem fresh_kernel_stops_before_generate:
  assumes "device k = None" and "kv_appends L (model k)"
    and "files k ''document.txt'' = Some lines"
  shows "snd (run_all k) = Inl NameError \<and>
         generate_calls (fst (run_all k)) = [] \<and>
         prompts_cached (fst (run_all k)) = [system_prompt (concat lines)] \<and>
         texts_tokenized (fst (run_all k))
           = [system_prompt (concat lines), question1 @ ''\<newline>'']"
proof -
  let ?p = "system_prompt (concat lines)"
  let ?c0 = "get_kv_cache (model k) (tokenizer k) ?p"
  let ?n = "length (tokenizer k ?p)"
  note d = document_cell_result [OF assms(2,3)]
  have e: "cache_extent L ?n ?c0"
    using assms(2) by (rule get_kv_cache_extent_aux)
  note q = query_cell_events [OF assms(2) e order_refl, of question1]
  obtain ev1 r1 where q1: "query_cell k question1 (?c0, ?n) = (ev1, r1)"
    by (cases "query_cell k question1 (?c0, ?n)")
  have r1: "r1 = Inl NameError" using q q1 assms(1) by simp
  have r: "run_all k = ([PathExists ''document.txt'', GetKvCache ?p, Tokenize ?p] @ ev1, Inl NameError)"
    by (simp add: run_all_def d q1 r1)
  have g: "generate_calls ev1 = []" using q q1 assms(1) by simp
  have pc: "prompts_cached ev1 = []" using q q1 by simp
  have tt: "texts_tokenized ev1 = [question1 @ ''\<newline>'']" using q q1 by simp
  show ?thesis
    unfolding r using g pc tt
    by (simp add: projections_append projections_Cons)
qed

theorem fresh_kernel_stops_before_generate_witness:
  "snd (run_all (toy_kernel None)) = Inl NameError \<and>
   generate_calls (fst (run_all (toy_kernel None))) = [] \<and>
   texts_tokenized (fst (run_all (toy_kernel None)))
     = [system_prompt ''Ada proves.\<newline>'', ''Who is Priya Nair?\<newline>'']"
proof -
  have d: "device (toy_kernel None) = None" by (simp add: toy_kernel_def)
  have m: "kv_appends 2 (model (toy_kernel None))"
    using toy_contract by (simp add: toy_kernel_def)
  have f: "files (toy_kernel None) ''document.txt'' = Some [''Ada proves.\<newline>'']"
    by (simp add: toy_kernel_def toy_files_def)
  show ?thesis
    using fresh_kernel_stops_before_generate [OF d m f] by (simp add: question1_def)
qed

text \<open>
  C4. For a model that keeps the promise \<open>kv_appends\<close> and with \<^verbatim>\<open>document.txt\<close>
  present, the document cell binds \<open>origin_len\<close> to the number of tokens of the system
  prompt, \<open>get_kv_cache\<close> is called once in the run, every call of \<open>clean_up\<close> leaves a
  cache of \<open>L\<close> layers with exactly \<open>origin_len\<close> positions in every tensor, and every
  call of \<open>generate\<close> is given the cache the \<open>clean_up\<close> of its cell has just left. A
  run that ends with both answers has made two such calls of \<open>generate\<close>.
\<close>

theorem queries_start_from_origin_len:
  assumes "kv_appends L (model k)" and "files k ''document.txt'' = Some lines"
    and "p = system_prompt (concat lines)" and "n = length (tokenizer k p)"
    and "evs = fst (run_all k)"
  shows "snd (document_cell k) = Inr (get_kv_cache (model k) (tokenizer k) p, n) \<and>
         prompts_cached evs = [p] \<and>
         caches_cleaned evs \<noteq> [] \<and>
         all_extent L n (caches_cleaned evs) \<and>
         map snd (generate_calls evs) = (if device k = None then [] else caches_cleaned evs) \<and>
         (\<forall>a. snd (run_all k) = Inr a \<longrightarrow> length (generate_calls evs) = 2)"
proof -
  let ?c0 = "get_kv_cache (model k) (tokenizer k) p"
  let ?ev0 = "[PathExists ''document.txt'', GetKvCache p, Tokenize p]"
  have d: "document_cell k = (?ev0, Inr (?c0, n))"
    using document_cell_result [OF assms(1,2)] assms(3,4) by simp
  have e: "cache_extent L n ?c0"
    using get_kv_cache_extent_aux [OF assms(1), of "tokenizer k" p] assms(4) by simp
  have p0: "prompts_cached ?ev0 = [p]" "caches_cleaned ?ev0 = []" "generate_calls ?ev0 = []"
    by (simp_all add: prompts_cached_def caches_cleaned_def generate_calls_def)
  note q1 = query_cell_events [OF assms(1) e order_refl, of question1]
  obtain ev1 r1 where c1: "query_cell k question1 (?c0, n) = (ev1, r1)"
    by (cases "query_cell k question1 (?c0, n)")
  have f1: "caches_cleaned ev1 = [truncated (int n) ?c0]"
    "cache_extent L n (truncated (int n) ?c0)"
    "map snd (generate_calls ev1) = (if device k = None then [] else [truncated (int n) ?c0])"
    "prompts_cached ev1 = []"
    using q1 c1 by simp_all
  show ?thesis
  proof (cases r1)
    case (Inl err)
    have r: "run_all k = (?ev0 @ ev1, Inl err)"
      by (simp add: run_all_def d c1 Inl)
    have ev: "evs = ?ev0 @ ev1" using assms(5) r by simp
    show ?thesis
      using f1 by (simp add: ev r d projections_append projections_Cons all_extent_def)
  next
    case (Inr ga)
    obtain g1 a1 where ga: "ga = (g1, a1)" by (cases ga)
    have "snd (query_cell k question1 (?c0, n)) = Inr (g1, a1)"
      using c1 Inr ga by simp
    with q1 have "snd g1 = n \<and> (\<exists>n'' \<ge> n. cache_extent L n'' (fst g1))"
      by blast
    then obtain c n'' where g1: "g1 = (c, n)" and n'': "n \<le> n''" and e2: "cache_extent L n'' c"
      by (cases g1) auto
    have dev: "device k \<noteq> None"
      using q1 c1 Inr by auto
    note q2 = query_cell_events [OF assms(1) e2 n'', of question2]
    obtain ev2 r2 where c2: "query_cell k question2 (c, n) = (ev2, r2)"
      by (cases "query_cell k question2 (c, n)")
    have f2: "caches_cleaned ev2 = [truncated (int n) c]"
      "cache_extent L n (truncated (int n) c)"
      "map snd (generate_calls ev2) = [truncated (int n) c]"
      "prompts_cached ev2 = []"
      using q2 c2 dev by simp_all
    have ev: "evs = ?ev0 @ ev1 @ ev2"
      using assms(5) by (simp add: run_all_def d c1 Inr ga g1 c2 split: sum.splits prod.splits)
    have l1: "length (generate_calls ev1) = 1"
      using f1(3) dev by (metis length_map length_Cons list.size(3) One_nat_def)
    have l2: "length (generate_calls ev2) = 1"
      using f2(3) by (metis length_map length_Cons list.size(3) One_nat_def)
    show ?thesis
      using f1 f2 dev l1 l2
      by (simp add: ev d projections_append projections_Cons all_extent_def)
  qed
qed

lemma toy_run_answers: "snd (run_all (toy_kernel (Some ''cpu''))) = Inr ([1, 2, 3, 4], [1, 2, 3, 4])"
  by code_simp

theorem queries_start_from_origin_len_witness:
  "snd (run_all (toy_kernel (Some ''cpu''))) = Inr ([1, 2, 3, 4], [1, 2, 3, 4]) \<and>
   length (generate_calls (fst (run_all (toy_kernel (Some ''cpu''))))) = 2 \<and>
   all_extent 2 (length (system_prompt ''Ada proves.\<newline>''))
     (map snd (generate_calls (fst (run_all (toy_kernel (Some ''cpu''))))))"
proof -
  let ?k = "toy_kernel (Some ''cpu'')"
  have m: "kv_appends 2 (model ?k)"
    using toy_contract by (simp add: toy_kernel_def)
  have f: "files ?k ''document.txt'' = Some [''Ada proves.\<newline>'']"
    by (simp add: toy_kernel_def toy_files_def)
  have n: "length (system_prompt ''Ada proves.\<newline>'')
             = length (tokenizer ?k (system_prompt (concat [''Ada proves.\<newline>''])))"
    by (simp add: toy_kernel_def toy_tokenizer_def)
  have dv: "device ?k \<noteq> None" by (simp add: toy_kernel_def)
  show ?thesis
    using queries_start_from_origin_len [OF m f refl n refl] toy_run_answers dv
    by simp
qed

text \<open>
  C6, as the code has it. Every run tests the existence of one path,
  \<^verbatim>\<open>document.txt\<close>: without the file the run ends there with FileNotFoundError, and with
  it the document cell goes on to build the cache. The function \<open>get_env\<close>, which no cell
  calls, tests the existence of two paths: \<^verbatim>\<open>.env\<close> and then the file it has chosen.
\<close>

theorem one_existence_test_per_run:
  "paths_tested (fst (run_all k)) = [''document.txt''] \<and>
   (files k ''document.txt'' = None \<longrightarrow>
      run_all k = ([PathExists ''document.txt''], Inl FileNotFoundError)) \<and>
   (\<forall>lines. files k ''document.txt'' = Some lines \<longrightarrow>
      snd (document_cell k) \<noteq> Inl FileNotFoundError \<and>
      prompts_cached (fst (run_all k)) = [system_prompt (concat lines)]) \<and>
   fst (get_env fs) = [''.env'', if fs ''.env'' \<noteq> None then ''.env'' else ''env'']"
proof -
  have a: "paths_tested (fst (run_all k)) = [''document.txt'']"
  proof (cases "files k ''document.txt''")
    case None
    then show ?thesis
      by (simp add: run_all_def document_cell_def projections_Cons projections_Nil)
  next
    case (Some lines)
    obtain ev0 r0 where d: "document_cell k = (ev0, r0)"
      by (cases "document_cell k")
    have p0: "paths_tested ev0 = [''document.txt'']"
      using d Some by (auto simp add: document_cell_def Let_def projections_Cons projections_Nil)
    show ?thesis
    proof (cases r0)
      case (Inl e)
      then show ?thesis by (simp add: run_all_def d p0)
    next
      case (Inr g0)
      obtain ev1 r1 where q1: "query_cell k question1 g0 = (ev1, r1)"
        by (cases "query_cell k question1 g0")
      have p1: "paths_tested ev1 = []"
        using query_cell_no_paths [of k question1 g0] q1 by simp
      show ?thesis
      proof (cases r1)
        case (Inl e)
        then show ?thesis by (simp add: run_all_def d Inr q1 p0 p1 projections_append)
      next
        case r: (Inr ga)
        obtain g1 a1 where ga: "ga = (g1, a1)" by (cases ga)
        obtain ev2 r2 where q2: "query_cell k question2 g1 = (ev2, r2)"
          by (cases "query_cell k question2 g1")
        have p2: "paths_tested ev2 = []"
          using query_cell_no_paths [of k question2 g1] q2 by simp
        show ?thesis
          by (cases r2)
             (auto simp add: run_all_def d Inr q1 r ga q2 p0 p1 p2 projections_append)
      qed
    qed
  qed
  have b: "files k ''document.txt'' = None \<longrightarrow>
      run_all k = ([PathExists ''document.txt''], Inl FileNotFoundError)"
    by (simp add: run_all_def document_cell_def)
  have c: "snd (document_cell k) \<noteq> Inl FileNotFoundError \<and>
           prompts_cached (fst (run_all k)) = [system_prompt (concat lines)]"
    if "files k ''document.txt'' = Some lines" for lines
  proof -
    obtain ev0 r0 where d: "document_cell k = (ev0, r0)"
      by (cases "document_cell k")
    have ev0: "ev0 = [PathExists ''document.txt'', GetKvCache (system_prompt (concat lines)),
                     Tokenize (system_prompt (concat lines))]"
      using d by (simp add: document_cell_def that Let_def)
    have n: "r0 \<noteq> Inl FileNotFoundError"
      using d by (auto simp add: document_cell_def that Let_def split: list.splits)
    have "prompts_cached (fst (run_all k)) = [system_prompt (concat lines)]"
      by (auto simp add: run_all_def d ev0 projections_append projections_Cons projections_Nil
               split: sum.splits prod.splits dest: query_cell_no_promptsD)
    then show ?thesis using n d by simp
  qed
  have e: "fst (get_env fs) = [''.env'', if fs ''.env'' \<noteq> None then ''.env'' else ''env'']"
    by (simp add: get_env_def Let_def)
  show ?thesis
    using a b c e by blast
qed

theorem one_existence_test_per_run_witness:
  "paths_tested (fst (run_all (toy_kernel None))) = [''document.txt''] \<and>
   prompts_cached (fst (run_all (toy_kernel None))) = [system_prompt ''Ada proves.\<newline>''] \<and>
   run_all empty_kernel = ([PathExists ''document.txt''], Inl FileNotFoundError) \<and>
   fst (get_env example_env) = [''.env'', ''env'']"
proof -
  have f: "files (toy_kernel None) ''document.txt'' = Some [''Ada proves.\<newline>'']"
    by (simp add: toy_kernel_def toy_files_def)
  have e: "files empty_kernel ''document.txt'' = None"
    by (simp add: empty_kernel_def)
  have x: "example_env ''.env'' = None"
    by (simp add: example_env_def)
  show ?thesis
    using one_existence_test_per_run [of "toy_kernel None" example_env]
          one_existence_test_per_run [of empty_kernel example_env] f e x
    by simp
qed

text \<open>
  That no other code tests for a file fails at \<open>get_env\<close>: in an empty
  directory it asks for \<^verbatim>\<open>.env\<close> and for \<^verbatim>\<open>env\<close>.
\<close>

theorem get_env_tests_paths_counterexample:
  "fst (get_env Map.empty) = [''.env'', ''env'']"
  by (simp add: get_env_def)

section \<open>When generate returns\<close>

text \<open>
  On a well-shaped model, \<open>generate\<close> raises nothing when the prompt has no empty row and
  either the model has no end-of-sequence token or the batch has one row; with such a
  token and another batch size, \<^verbatim>\<open>token.item()\<close> raises.
\<close>

lemma well_shapedD:
  assumes "well_shaped m" and "[] \<notin> set ids" and "forward m ids c = (lg, c1)"
  shows "length lg = length ids \<and> [] \<notin> set lg \<and> [] \<notin> set (map last lg)"
proof -
  have "length (fst (forward m ids c)) = length ids \<and>
        [] \<notin> set (fst (forward m ids c)) \<and>
        [] \<notin> set (map last (fst (forward m ids c)))"
    using assms(1,2) unfolding well_shaped_def by blast
  then show ?thesis by (simp add: assms(3))
qed

lemma generate_loop_returns:
  assumes "well_shaped m" and "eos_token_id m = None \<or> length out = 1"
    and "length nx = length out" and "[] \<notin> set nx"
  shows "\<exists>out' c'. generate_loop m n nx c out = Inr (out', c')"
  using assms(2,3,4)
proof (induction n arbitrary: nx c out)
  case 0
  then show ?case by simp
next
  case (Suc n)
  obtain lg c1 where f: "forward m nx c = (lg, c1)"
    by (cases "forward m nx c")
  have ws: "length lg = length nx" "[] \<notin> set lg" "[] \<notin> set (map last lg)"
    using well_shapedD [OF assms(1) Suc.prems(3) f] by simp_all
  define tok where "tok = map (\<lambda>v. [argmax v]) (map last lg)"
  define out1 where "out1 = map (\<lambda>(r, t). r @ t) (zip out tok)"
  have lp: "last_position lg = Inr (map last lg)"
    using ws(2) by (simp add: last_position_def)
  have tk: "argmax_keepdim (map last lg) = Inr tok"
    using ws(3) by (simp add: argmax_keepdim_def tok_def)
  have lt: "length tok = length out"
    using ws(1) Suc.prems(2) by (simp add: tok_def)
  have ct: "cat_last out tok = Inr out1"
    using lt by (simp add: cat_last_def out1_def)
  have l1: "length out1 = length out" "length tok = length out1" "[] \<notin> set tok"
    using lt by (auto simp add: out1_def tok_def)
  have ih: "\<exists>out' c'. generate_loop m n tok c1 out1 = Inr (out', c')"
    using Suc.IH [of out1 tok c1] Suc.prems(1) l1 by simp
  show ?case
  proof (cases "eos_token_id m")
    case None
    then show ?thesis using ih by (simp add: f lp tk ct)
  next
    case (Some e)
    then have "length out = 1" using Suc.prems(1) by simp
    then obtain v where "lg = [v]"
      using ws(1) Suc.prems(2) by (cases lg) auto
    then have it: "item tok = Inr (argmax (last v))"
      by (simp add: item_def tok_def)
    show ?thesis using ih Some it by (simp add: f lp tk ct)
  qed
qed

lemma generate_returns:
  assumes "well_shaped m" and "eos_token_id m = None \<or> length input_ids = 1"
    and "[] \<notin> set input_ids"
  shows "\<exists>out c'. generate m input_ids c max_new_tokens = Inr (out, c')"
proof -
  obtain out0 c' where
    "generate_loop m (nat max_new_tokens) input_ids c input_ids = Inr (out0, c')"
    using generate_loop_returns [OF assms(1,2) refl assms(3)] by blast
  then show ?thesis by (simp add: generate_def Let_def)
qed

lemma toy_last_logits:
  "[] \<notin> set ids \<Longrightarrow> [] \<notin> set (map last (map (map toy_logits) ids))"
proof
  assume a: "[] \<notin> set ids" and "[] \<in> set (map last (map (map toy_logits) ids))"
  then obtain r where r: "r \<in> set ids" "last (map toy_logits r) = []"
    by auto
  have "r \<noteq> []" using a r(1) by auto
  then have "last (map toy_logits r) = toy_logits (last r)" by (simp add: last_map)
  then show False using r(2) by (simp add: toy_logits_def)
qed

lemma toy_well_shaped: "well_shaped toy_model"
proof -
  have "[] \<notin> set (map (map toy_logits) ids)" if "[] \<notin> set ids" for ids
    using that by auto
  then show ?thesis
    using toy_last_logits by (simp add: well_shaped_def toy_model_def toy_forward_def)
qed

end
